theory Spec2Isabelle
  imports Main "HOL-Library.Multiset"
begin

section \<open>The d-ary max-heap of \<^verbatim>\<open>d_ary_heap.py\<close>\<close>

text \<open>
  The class \<^verbatim>\<open>DAryHeap\<close> keeps three attributes: the list \<^verbatim>\<open>_heap\<close>, the integer
  \<^verbatim>\<open>_heap_size\<close> and the integer \<^verbatim>\<open>_children\<close>. Keys are compared with Python's
  \<^verbatim>\<open><\<close>, \<^verbatim>\<open><=\<close> and \<^verbatim>\<open>>\<close>; they are modelled by a linearly ordered type. Python integers
  are unbounded, hence \<^typ>\<open>int\<close>. Every method mutates the object in place: the model
  passes the object in and returns it, together with the value returned or the
  exception raised.
\<close>

datatype error = IllegalChildrenError | IllegalKeyError | HeapUnderflowError | IndexError

record 'a d_ary_heap =
  heap :: "'a list"
  heap_size :: int
  children :: int

subsection \<open>Python lists\<close>

text \<open>
  A subscript \<^verbatim>\<open>xs[i]\<close> accepts \<open>0 \<le> i < len\<close> and, counting from the end,
  \<open>-len \<le> i < 0\<close>; any other index raises \<^verbatim>\<open>IndexError\<close>. \<^verbatim>\<open>xs.pop()\<close> removes the last
  element and raises \<^verbatim>\<open>IndexError\<close> on an empty list.
\<close>

definition py_index :: "'a list \<Rightarrow> int \<Rightarrow> nat option" where
  "py_index xs i =
     (if 0 \<le> i \<and> i < int (length xs) then Some (nat i)
      else if i < 0 \<and> - int (length xs) \<le> i then Some (nat (int (length xs) + i))
      else None)"

definition py_get :: "'a list \<Rightarrow> int \<Rightarrow> 'a option" where
  "py_get xs i = (case py_index xs i of None \<Rightarrow> None | Some n \<Rightarrow> Some (xs ! n))"

definition py_set :: "'a list \<Rightarrow> int \<Rightarrow> 'a \<Rightarrow> 'a list option" where
  "py_set xs i v = (case py_index xs i of None \<Rightarrow> None | Some n \<Rightarrow> Some (xs[n := v]))"

definition py_pop :: "'a list \<Rightarrow> 'a list option" where
  "py_pop xs = (if xs = [] then None else Some (butlast xs))"

text \<open>\<^verbatim>\<open>range(start, stop, -1)\<close>: \<open>start, start - 1, \<dots>\<close> as long as the value exceeds \<open>stop\<close>.\<close>

function range_down :: "int \<Rightarrow> int \<Rightarrow> int list" where
  "range_down start stop = (if stop < start then start # range_down (start - 1) stop else [])"
  by pat_completeness auto
termination
  by (relation "measure (\<lambda>(start, stop). nat (start - stop))") auto

subsection \<open>Construction and index arithmetic\<close>

definition init :: "int \<Rightarrow> int \<Rightarrow> error + 'a d_ary_heap" where
  "init hs c =
     (if c < 2 then Inl IllegalChildrenError
      else Inr \<lparr>heap = [], heap_size = hs, children = c\<rparr>)"

text \<open>
  \<^verbatim>\<open>_swap\<close> reads both positions before it writes: when a read fails nothing has been
  written, and after two successful reads both writes succeed.
\<close>

definition swap :: "'a list \<Rightarrow> int \<Rightarrow> int \<Rightarrow> error + 'a list" where
  "swap array index_a index_b =
     (case py_get array index_a of
        None \<Rightarrow> Inl IndexError
      | Some temp \<Rightarrow>
          (case py_get array index_b of
             None \<Rightarrow> Inl IndexError
           | Some vb \<Rightarrow>
               (case py_set array index_a vb of
                  None \<Rightarrow> Inl IndexError
                | Some array1 \<Rightarrow>
                    (case py_set array1 index_b temp of
                       None \<Rightarrow> Inl IndexError
                     | Some array2 \<Rightarrow> Inr array2))))"

definition k_child :: "'a d_ary_heap \<Rightarrow> int \<Rightarrow> int \<Rightarrow> int" where
  "k_child self k parent_index = children self * parent_index + k"

text \<open>
  Python's \<^verbatim>\<open>//\<close> rounds towards minus infinity, as \<open>div\<close> on \<^typ>\<open>int\<close> does. The
  constructor admits \<open>_children \<ge> 2\<close> only, so the divisor is never zero.
\<close>

definition parent :: "'a d_ary_heap \<Rightarrow> int \<Rightarrow> int" where
  "parent self child_index = (child_index - 1) div children self"

subsection \<open>Sift-down\<close>

text \<open>
  \<^verbatim>\<open>_find_max\<close>: the loop over \<^verbatim>\<open>range(1, self._children + 1)\<close>. The conjunction
  short-circuits, so the list is read only for a child below \<^verbatim>\<open>_heap_size\<close>;
  \<^verbatim>\<open>heap[child]\<close> is read before \<^verbatim>\<open>heap[max_value]\<close>.
\<close>

fun find_max_loop ::
  "'a::linorder d_ary_heap \<Rightarrow> 'a list \<Rightarrow> int \<Rightarrow> int list \<Rightarrow> int \<Rightarrow> error + int" where
  "find_max_loop self hp parent_index [] max_value = Inr max_value"
| "find_max_loop self hp parent_index (k # ks) max_value =
     (let child = k_child self k parent_index in
      if child < heap_size self then
        (case py_get hp child of
           None \<Rightarrow> Inl IndexError
         | Some c \<Rightarrow>
             (case py_get hp max_value of
                None \<Rightarrow> Inl IndexError
              | Some m \<Rightarrow>
                  find_max_loop self hp parent_index ks (if c > m then child else max_value)))
      else find_max_loop self hp parent_index ks max_value)"

definition find_max :: "'a::linorder d_ary_heap \<Rightarrow> 'a list \<Rightarrow> int \<Rightarrow> error + int" where
  "find_max self hp parent_index =
     find_max_loop self hp parent_index [1..children self] parent_index"

lemma py_index_bounds: "py_index xs i = Some n \<Longrightarrow> n < length xs \<and> - int (length xs) \<le> i \<and> i < int (length xs)"
  by (auto simp: py_index_def split: if_splits)

lemma py_set_length: "py_set xs i v = Some ys \<Longrightarrow> length ys = length xs"
  by (auto simp: py_set_def split: option.splits)

lemma swap_length: "swap xs a b = Inr ys \<Longrightarrow> length ys = length xs"
  by (auto simp: swap_def split: option.splits dest!: py_set_length)

lemma py_get_bounds: "py_get xs i = Some v \<Longrightarrow> - int (length xs) \<le> i \<and> i < int (length xs)"
  by (auto simp: py_get_def split: option.splits dest: py_index_bounds)

lemma find_max_loop_result:
  "find_max_loop self hp p ks mv = Inr m \<Longrightarrow>
   m = mv \<or> (\<exists>k\<in>set ks. m = k_child self k p \<and> m < heap_size self
               \<and> - int (length hp) \<le> m \<and> m < int (length hp))"
proof (induction ks arbitrary: mv)
  case Nil
  then show ?case by simp
next
  case (Cons k ks)
  show ?case
  proof (cases "k_child self k p < heap_size self")
    case False
    with Cons.prems have "find_max_loop self hp p ks mv = Inr m" by simp
    from Cons.IH[OF this] show ?thesis by auto
  next
    case True
    with Cons.prems obtain c v where c: "py_get hp (k_child self k p) = Some c"
      and v: "py_get hp mv = Some v"
      and r: "find_max_loop self hp p ks (if c > v then k_child self k p else mv) = Inr m"
      by (auto simp: Let_def split: option.splits)
    from Cons.IH[OF r] py_get_bounds[OF c] True show ?thesis
      by (auto split: if_splits)
  qed
qed

lemma find_max_result:
  assumes "find_max self hp p = Inr m" "m \<noteq> p"
  shows "\<exists>k. 1 \<le> k \<and> k \<le> children self \<and> m = children self * p + k \<and> m < heap_size self
               \<and> - int (length hp) \<le> m \<and> m < int (length hp)"
  using find_max_loop_result[OF assms(1)[unfolded find_max_def]] assms(2)
  by (auto simp: k_child_def)

text \<open>
  \<^verbatim>\<open>max_heapify(heap, node)\<close> mutates the list it is given; inside the class that list
  is always \<^verbatim>\<open>self._heap\<close> itself. From \<^verbatim>\<open>self\<close> it reads \<^verbatim>\<open>_children\<close> and
  \<^verbatim>\<open>_heap_size\<close> only. The model returns the list as it is when the call returns or
  raises. The recursion ends for every input: a child that replaces \<open>node\<close> lies
  below \<^verbatim>\<open>_heap_size\<close> and, past it, above \<open>node\<close> for \<open>node \<ge> 0\<close>; a negative
  \<open>node\<close> moves down towards \<open>-len\<close>, or from \<open>-1\<close> to \<open>0\<close>.
\<close>

function max_heapify ::
  "'a::linorder d_ary_heap \<Rightarrow> 'a list \<Rightarrow> int \<Rightarrow> (error + unit) \<times> 'a list" where
  "max_heapify self hp node =
     (case find_max self hp node of
        Inl e \<Rightarrow> (Inl e, hp)
      | Inr largest \<Rightarrow>
          if largest \<noteq> node then
            (case swap hp node largest of
               Inl e \<Rightarrow> (Inl e, hp)
             | Inr hp' \<Rightarrow> max_heapify self hp' largest)
          else (Inr (), hp))"
  by pat_completeness auto
termination
proof (relation "measure (\<lambda>(self, hp, node).
         if children self \<le> 1 \<or> 0 \<le> node then nat (heap_size self - node)
         else nat (heap_size self) + 1 + nat (node + int (length hp) + 1))")
  show "wf (measure (\<lambda>(self :: 'a d_ary_heap, hp, node).
         if children self \<le> 1 \<or> 0 \<le> node then nat (heap_size self - node)
         else nat (heap_size self) + 1 + nat (node + int (length hp) + 1)))" by simp
next
  fix self :: "'a d_ary_heap" and hp node largest hp'
  assume fm: "find_max self hp node = Inr largest" and ne: "largest \<noteq> node"
    and sw: "swap hp node largest = Inr hp'"
  from find_max_result[OF fm ne] obtain k where k: "1 \<le> k" "k \<le> children self"
    "largest = children self * node + k" "largest < heap_size self"
    "- int (length hp) \<le> largest" "largest < int (length hp)" by blast
  have len: "length hp' = length hp" using swap_length[OF sw] .
  define d where "d = children self"
  have d1: "1 \<le> d" using k d_def by simp
  have up: "node < largest" if "0 \<le> node"
  proof -
    have "1 * node \<le> d * node" using d1 that by (intro mult_right_mono) auto
    then show ?thesis using k d_def by simp
  qed
  have up1: "node < largest" if "d \<le> 1"
  proof -
    have "d = 1" using d1 that by simp
    then show ?thesis using k d_def by simp
  qed
  have down: "largest < node" if "2 \<le> d" "node < 0" "largest < 0"
  proof -
    have "d * (node + 1) \<le> 2 * (node + 1)" using that by (intro mult_right_mono_neg) auto
    moreover have "largest \<le> d * (node + 1)" using k d_def by (simp add: algebra_simps)
    ultimately have "largest \<le> 2 * node + 2" by simp
    show ?thesis
    proof (cases "node = -1")
      case True
      then show ?thesis using that ne by simp
    next
      case False
      then show ?thesis using \<open>largest \<le> 2 * node + 2\<close> that ne by simp
    qed
  qed
  show "((self, hp', largest), (self, hp, node)) \<in> measure (\<lambda>(self, hp, node).
         if children self \<le> 1 \<or> 0 \<le> node then nat (heap_size self - node)
         else nat (heap_size self) + 1 + nat (node + int (length hp) + 1))"
  proof (cases "d \<le> 1 \<or> 0 \<le> node")
    case True
    then have "node < largest" using up up1 by blast
    moreover have "d \<le> 1 \<or> 0 \<le> largest" using True \<open>node < largest\<close> by auto
    ultimately show ?thesis using True k(4) d_def by auto
  next
    case False
    then have d2: "2 \<le> d" and neg: "node < 0" by auto
    show ?thesis
    proof (cases "0 \<le> largest")
      case True
      then show ?thesis using d2 neg k(4) d_def by auto
    next
      case False
      then have "largest < node" using down d2 neg by simp
      then show ?thesis using d2 neg False k(5) len d_def by auto
    qed
  qed
qed

subsection \<open>Building a heap\<close>

text \<open>
  \<^verbatim>\<open>build_max_heap\<close> stores \<^verbatim>\<open>data\<close> in \<^verbatim>\<open>_heap\<close> and runs \<^verbatim>\<open>max_heapify\<close> over
  \<^verbatim>\<open>range(self._heap_size // 2 - 1, -1, -1)\<close>; it does not assign \<^verbatim>\<open>_heap_size\<close>.
\<close>

definition build_indices :: "'a d_ary_heap \<Rightarrow> int list" where
  "build_indices self = range_down (heap_size self div 2 - 1) (- 1)"

fun build_loop ::
  "'a::linorder d_ary_heap \<Rightarrow> int list \<Rightarrow> (error + unit) \<times> 'a d_ary_heap" where
  "build_loop self [] = (Inr (), self)"
| "build_loop self (i # is) =
     (case max_heapify self (heap self) i of
        (Inl e, hp) \<Rightarrow> (Inl e, self\<lparr>heap := hp\<rparr>)
      | (Inr u, hp) \<Rightarrow> build_loop (self\<lparr>heap := hp\<rparr>) is)"

definition build_max_heap ::
  "'a::linorder d_ary_heap \<Rightarrow> 'a list \<Rightarrow> (error + unit) \<times> 'a d_ary_heap" where
  "build_max_heap self data =
     (let self = self\<lparr>heap := data\<rparr> in build_loop self (build_indices self))"

subsection \<open>Sift-up, increase-key and insert\<close>

text \<open>
  \<^verbatim>\<open>increase_key\<close> and \<^verbatim>\<open>max_heap_insert\<close> end with the same loop,
  \<^verbatim>\<open>while index > 0 and key > self._heap[self.parent(index)]\<close>.
\<close>

lemma parent_less: "0 < i \<Longrightarrow> parent self i < i"
proof -
  assume i: "0 < i"
  have "(i - 1) div children self \<le> i - 1"
  proof (cases "i = 1")
    case True
    then show ?thesis by simp
  next
    case False
    then show ?thesis using i by (intro int_div_le_self) simp
  qed
  then show ?thesis by (simp add: parent_def)
qed

function sift_up ::
  "'a::linorder d_ary_heap \<Rightarrow> int \<Rightarrow> 'a \<Rightarrow> (error + unit) \<times> 'a d_ary_heap" where
  "sift_up self index key =
     (if index > 0 then
        (case py_get (heap self) (parent self index) of
           None \<Rightarrow> (Inl IndexError, self)
         | Some p \<Rightarrow>
             if key > p then
               (case swap (heap self) index (parent self index) of
                  Inl e \<Rightarrow> (Inl e, self)
                | Inr hp \<Rightarrow> sift_up (self\<lparr>heap := hp\<rparr>) (parent self index) key)
             else (Inr (), self))
      else (Inr (), self))"
  by pat_completeness auto
termination
  by (relation "measure (\<lambda>(self, index, key). nat index)") (auto simp: parent_less)

definition increase_key ::
  "'a::linorder d_ary_heap \<Rightarrow> int \<Rightarrow> 'a \<Rightarrow> (error + unit) \<times> 'a d_ary_heap" where
  "increase_key self index key =
     (case py_get (heap self) index of
        None \<Rightarrow> (Inl IndexError, self)
      | Some current \<Rightarrow>
          if key \<le> current then (Inl IllegalKeyError, self)
          else
            (case py_set (heap self) index key of
               None \<Rightarrow> (Inl IndexError, self)
             | Some hp \<Rightarrow> sift_up (self\<lparr>heap := hp\<rparr>) index key))"

definition max_heap_insert ::
  "'a::linorder d_ary_heap \<Rightarrow> 'a \<Rightarrow> (error + unit) \<times> 'a d_ary_heap" where
  "max_heap_insert self key =
     (let self = self\<lparr>heap_size := heap_size self + 1\<rparr>;
          self = self\<lparr>heap := heap self @ [key]\<rparr>;
          index = heap_size self - 1
      in sift_up self index key)"

subsection \<open>Deletion and extraction\<close>

text \<open>
  The loop of \<^verbatim>\<open>delete_key\<close>,
  \<^verbatim>\<open>while 1 <= key < self._heap_size and self._heap[self.parent(key)] < self._heap[key]\<close>,
  returns the position it stops at, which \<^verbatim>\<open>max_heapify\<close> is then called on.
\<close>

function delete_key_loop ::
  "'a::linorder d_ary_heap \<Rightarrow> int \<Rightarrow> (error + int) \<times> 'a d_ary_heap" where
  "delete_key_loop self key =
     (if 1 \<le> key \<and> key < heap_size self then
        (case py_get (heap self) (parent self key) of
           None \<Rightarrow> (Inl IndexError, self)
         | Some p \<Rightarrow>
             (case py_get (heap self) key of
                None \<Rightarrow> (Inl IndexError, self)
              | Some v \<Rightarrow>
                  if p < v then
                    (case swap (heap self) key (parent self key) of
                       Inl e \<Rightarrow> (Inl e, self)
                     | Inr hp \<Rightarrow> delete_key_loop (self\<lparr>heap := hp\<rparr>) (parent self key))
                  else (Inr key, self)))
      else (Inr key, self))"
  by pat_completeness auto
termination
  by (relation "measure (\<lambda>(self, key). nat key)") (auto simp: parent_less)

definition delete_key ::
  "'a::linorder d_ary_heap \<Rightarrow> int \<Rightarrow> (error + unit) \<times> 'a d_ary_heap" where
  "delete_key self key =
     (if key \<ge> heap_size self \<or> key < 0 then (Inl IndexError, self)
      else
        (case py_get (heap self) (heap_size self - 1) of
           None \<Rightarrow> (Inl IndexError, self)
         | Some v \<Rightarrow>
             (case py_set (heap self) key v of
                None \<Rightarrow> (Inl IndexError, self)
              | Some hp1 \<Rightarrow>
                  (case py_pop hp1 of
                     None \<Rightarrow> (Inl IndexError, self\<lparr>heap := hp1\<rparr>)
                   | Some hp2 \<Rightarrow>
                       (let self = self\<lparr>heap := hp2, heap_size := heap_size self - 1\<rparr> in
                        case delete_key_loop self key of
                          (Inl e, self) \<Rightarrow> (Inl e, self)
                        | (Inr key, self) \<Rightarrow>
                            (case max_heapify self (heap self) key of
                               (r, hp3) \<Rightarrow> (r, self\<lparr>heap := hp3\<rparr>)))))))"

definition extract_max :: "'a::linorder d_ary_heap \<Rightarrow> (error + 'a) \<times> 'a d_ary_heap" where
  "extract_max self =
     (if heap_size self < 1 then (Inl HeapUnderflowError, self)
      else
        (case py_get (heap self) 0 of
           None \<Rightarrow> (Inl IndexError, self)
         | Some max_value \<Rightarrow>
             (case py_get (heap self) (heap_size self - 1) of
                None \<Rightarrow> (Inl IndexError, self)
              | Some v \<Rightarrow>
                  (case py_set (heap self) 0 v of
                     None \<Rightarrow> (Inl IndexError, self)
                   | Some hp1 \<Rightarrow>
                       (case py_pop hp1 of
                          None \<Rightarrow> (Inl IndexError, self\<lparr>heap := hp1\<rparr>)
                        | Some hp2 \<Rightarrow>
                            (let self = self\<lparr>heap := hp2, heap_size := heap_size self - 1\<rparr> in
                             case max_heapify self (heap self) 0 of
                               (Inl e, hp3) \<Rightarrow> (Inl e, self\<lparr>heap := hp3\<rparr>)
                             | (Inr u, hp3) \<Rightarrow> (Inr max_value, self\<lparr>heap := hp3\<rparr>)))))))"

subsection \<open>Heap sort\<close>

text \<open>
  \<^verbatim>\<open>heap_sort(array)\<close> hands \<^verbatim>\<open>array\<close> to \<^verbatim>\<open>build_max_heap\<close>, which stores that very
  list object in \<^verbatim>\<open>_heap\<close>: from then on \<^verbatim>\<open>array\<close> and \<^verbatim>\<open>self._heap\<close> are one list,
  and the sorted \<^verbatim>\<open>array\<close> is the field \<open>heap\<close> of the object returned. The range of
  the loop is computed once, before \<^verbatim>\<open>_heap_size\<close> is decremented.
\<close>

fun heap_sort_loop ::
  "'a::linorder d_ary_heap \<Rightarrow> int list \<Rightarrow> (error + unit) \<times> 'a d_ary_heap" where
  "heap_sort_loop self [] = (Inr (), self)"
| "heap_sort_loop self (i # is) =
     (case swap (heap self) 0 i of
        Inl e \<Rightarrow> (Inl e, self)
      | Inr hp \<Rightarrow>
          (let self = self\<lparr>heap := hp, heap_size := heap_size self - 1\<rparr> in
           case max_heapify self (heap self) 0 of
             (Inl e, hp') \<Rightarrow> (Inl e, self\<lparr>heap := hp'\<rparr>)
           | (Inr u, hp') \<Rightarrow> heap_sort_loop (self\<lparr>heap := hp'\<rparr>) is))"

definition heap_sort ::
  "'a::linorder d_ary_heap \<Rightarrow> 'a list \<Rightarrow> (error + unit) \<times> 'a d_ary_heap" where
  "heap_sort self array =
     (let self = self\<lparr>heap_size := int (length array)\<rparr>;
          temp_size = heap_size self in
      case build_max_heap self array of
        (Inl e, self) \<Rightarrow> (Inl e, self)
      | (Inr u, self) \<Rightarrow>
          (case heap_sort_loop self (range_down (heap_size self - 1) 0) of
             (Inl e, self) \<Rightarrow> (Inl e, self)
           | (Inr u, self) \<Rightarrow> (Inr (), self\<lparr>heap_size := temp_size\<rparr>)))"

subsection \<open>The max-heap invariant\<close>

text \<open>
  The d-ary max-heap property over the first \<open>n\<close> positions of \<open>xs\<close>: every position
  \<open>i\<close> with \<open>0 \<le> i < n\<close> dominates each of its children \<open>d * i + k\<close>, \<open>k = 1, \<dots>, d\<close>,
  that lies below \<open>n\<close>.
\<close>

definition max_heap_property :: "int \<Rightarrow> int \<Rightarrow> 'a::linorder list \<Rightarrow> bool" where
  "max_heap_property d n xs \<longleftrightarrow>
     (\<forall>i \<in> set [0..n - 1]. \<forall>k \<in> set [1..d].
        d * i + k < n \<longrightarrow> xs ! nat (d * i + k) \<le> xs ! nat i)"

subsection \<open>Partial heaps\<close>

text \<open>
  The same property read from the child: every position \<open>j\<close> with \<open>1 \<le> j < n\<close> whose
  parent \<open>(j - 1) div d\<close> is at least \<open>l\<close> is dominated by its parent. With \<open>l = 0\<close>
  this is the max-heap property; a larger \<open>l\<close> describes a list of which only the
  positions from \<open>l\<close> on have been sifted.
\<close>

definition heap_from :: "int \<Rightarrow> int \<Rightarrow> int \<Rightarrow> 'a::linorder list \<Rightarrow> bool" where
  "heap_from d l n xs \<longleftrightarrow>
     (\<forall>j. 1 \<le> j \<and> j < n \<and> l \<le> (j - 1) div d \<longrightarrow> xs ! nat j \<le> xs ! nat ((j - 1) div d))"

text \<open>
  The state in the middle of a sift-down at \<open>i\<close>: every parent other than \<open>i\<close>
  dominates its children, and the children of \<open>i\<close> are dominated by the parent of
  \<open>i\<close>, where it has one in range.
\<close>

definition down_except :: "int \<Rightarrow> int \<Rightarrow> int \<Rightarrow> int \<Rightarrow> 'a::linorder list \<Rightarrow> bool" where
  "down_except d l n i xs \<longleftrightarrow>
     (\<forall>j. 1 \<le> j \<and> j < n \<and> l \<le> (j - 1) div d \<longrightarrow>
        ((j - 1) div d \<noteq> i \<longrightarrow> xs ! nat j \<le> xs ! nat ((j - 1) div d)) \<and>
        ((j - 1) div d = i \<and> 1 \<le> i \<and> l \<le> (i - 1) div d \<longrightarrow>
           xs ! nat j \<le> xs ! nat ((i - 1) div d)))"

text \<open>
  The state in the middle of a sift-up at \<open>i\<close>: every position other than \<open>i\<close> is
  dominated by its parent, and the children of \<open>i\<close> are dominated by the parent of \<open>i\<close>.
\<close>

definition up_except :: "int \<Rightarrow> int \<Rightarrow> int \<Rightarrow> 'a::linorder list \<Rightarrow> bool" where
  "up_except d n i xs \<longleftrightarrow>
     (\<forall>j. 1 \<le> j \<and> j < n \<longrightarrow>
        (j \<noteq> i \<longrightarrow> xs ! nat j \<le> xs ! nat ((j - 1) div d)) \<and>
        ((j - 1) div d = i \<and> 1 \<le> i \<longrightarrow> xs ! nat j \<le> xs ! nat ((i - 1) div d)))"

text \<open>
  The state after a key has been overwritten at \<open>i\<close>: only the edges at \<open>i\<close>, to its
  parent and to its children, may be violated.
\<close>

definition both_except :: "int \<Rightarrow> int \<Rightarrow> int \<Rightarrow> 'a::linorder list \<Rightarrow> bool" where
  "both_except d n i xs \<longleftrightarrow>
     (\<forall>j. 1 \<le> j \<and> j < n \<longrightarrow>
        (j \<noteq> i \<and> (j - 1) div d \<noteq> i \<longrightarrow> xs ! nat j \<le> xs ! nat ((j - 1) div d)) \<and>
        ((j - 1) div d = i \<and> 1 \<le> i \<longrightarrow> xs ! nat j \<le> xs ! nat ((i - 1) div d)))"

text \<open>
  The loop invariant of heap sort: the first \<open>k\<close> positions form a max-heap, the rest
  is sorted, and no key of the first part exceeds a key of the rest.
\<close>

definition sort_inv :: "int \<Rightarrow> nat \<Rightarrow> 'a::linorder list \<Rightarrow> bool" where
  "sort_inv d k xs \<longleftrightarrow>
     heap_from d 0 (int k) xs \<and> sorted (drop k xs)
     \<and> (\<forall>x\<in>set (take k xs). \<forall>y\<in>set (drop k xs). x \<le> y)"

section \<open>Auxiliary facts\<close>

text \<open>
  The recursive equations of the loops are unfolded by hand, one step at a time.
\<close>

declare range_down.simps [simp del] max_heapify.simps [simp del] sift_up.simps [simp del]
  delete_key_loop.simps [simp del]

subsection \<open>Construction\<close>

text \<open>
  A heap that the constructor returns has a branching factor of at least 2, the
  hypothesis of the theorems below; the constructor fails exactly for a smaller one.
\<close>

lemma init_children:
  "init hs c = Inr self \<Longrightarrow> 2 \<le> children self \<and> heap_size self = hs \<and> heap self = []"
  by (auto simp: init_def split: if_splits)

lemma init_fails_iff:
  "(init hs c :: error + 'a d_ary_heap) = Inl IllegalChildrenError \<longleftrightarrow> c < 2"
  by (simp add: init_def)

subsection \<open>Parents and children\<close>

lemma parent_eq_iff:
  fixes d :: int
  assumes "0 < d"
  shows "((j - 1) div d = i) \<longleftrightarrow> (d * i + 1 \<le> j \<and> j \<le> d * i + d)"
proof
  assume "(j - 1) div d = i"
  then have i: "i = (j - 1) div d" by simp
  have "j - 1 = d * ((j - 1) div d) + (j - 1) mod d" by simp
  moreover have "0 \<le> (j - 1) mod d" "(j - 1) mod d < d" using assms by simp_all
  ultimately show "d * i + 1 \<le> j \<and> j \<le> d * i + d" unfolding i by linarith
next
  assume a: "d * i + 1 \<le> j \<and> j \<le> d * i + d"
  have "j - 1 = d * i + (j - 1 - d * i)" by simp
  then show "(j - 1) div d = i"
    by (rule int_div_pos_eq) (use a in auto)
qed

lemma parent_nonneg:
  fixes d :: int
  shows "0 < d \<Longrightarrow> 1 \<le> j \<Longrightarrow> 0 \<le> (j - 1) div d"
  by (simp add: pos_imp_zdiv_nonneg_iff)

lemma parent_lt:
  fixes d :: int
  assumes "0 < d" "1 \<le> j"
  shows "(j - 1) div d < j"
proof -
  have "(j - 1) div d \<le> j - 1"
  proof (cases "j = 1")
    case True
    then show ?thesis by simp
  next
    case False
    then show ?thesis using assms by (intro int_div_le_self) simp
  qed
  then show ?thesis by simp
qed

subsection \<open>One step of sift-down\<close>

lemma down_except_done:
  assumes "0 < d" "down_except d l n i xs"
    and "\<forall>k. 1 \<le> k \<and> k \<le> d \<and> d * i + k < n \<longrightarrow> xs ! nat (d * i + k) \<le> xs ! nat i"
  shows "heap_from d l n xs"
  unfolding heap_from_def
proof (intro allI impI)
  fix j assume j: "1 \<le> j \<and> j < n \<and> l \<le> (j - 1) div d"
  show "xs ! nat j \<le> xs ! nat ((j - 1) div d)"
  proof (cases "(j - 1) div d = i")
    case False
    then show ?thesis using assms(2) j unfolding down_except_def by blast
  next
    case True
    then have "d * i + 1 \<le> j \<and> j \<le> d * i + d" using parent_eq_iff[OF assms(1)] by blast
    then have "1 \<le> j - d * i \<and> j - d * i \<le> d \<and> d * i + (j - d * i) < n" using j by simp
    then have "xs ! nat (d * i + (j - d * i)) \<le> xs ! nat i" using assms(3) by blast
    then show ?thesis using True by simp
  qed
qed

lemma down_except_swap:
  assumes d: "0 < d" and i: "0 \<le> i" and k: "1 \<le> k" "k \<le> d" and c: "c = d * i + k" "c < n"
    and inv: "down_except d l n i xs"
    and lt: "xs ! nat i < xs ! nat c"
    and mx: "\<forall>k. 1 \<le> k \<and> k \<le> d \<and> d * i + k < n \<longrightarrow> xs ! nat (d * i + k) \<le> xs ! nat c"
    and yc: "ys ! nat c = xs ! nat i" and yi: "ys ! nat i = xs ! nat c"
    and yo: "\<forall>j. 0 \<le> j \<longrightarrow> j \<noteq> i \<longrightarrow> j \<noteq> c \<longrightarrow> ys ! nat j = xs ! nat j"
  shows "down_except d l n c ys"
  unfolding down_except_def
proof (intro allI impI)
  fix j assume j: "1 \<le> j \<and> j < n \<and> l \<le> (j - 1) div d"
  define pj where "pj = (j - 1) div d"
  have pc: "(c - 1) div d = i" using parent_eq_iff[OF d, of c i] c k by simp
  have ic: "i < c"
  proof -
    have "1 * i \<le> d * i" using d i by (intro mult_right_mono) auto
    then show ?thesis using c k by simp
  qed
  have c1: "1 \<le> c" using ic i by simp
  have pj0: "0 \<le> pj" "pj < j" using parent_nonneg[OF d, of j] parent_lt[OF d, of j] j pj_def by auto
  have kids: "xs ! nat j \<le> xs ! nat c" if "pj = i"
  proof -
    have "d * i + 1 \<le> j \<and> j \<le> d * i + d" using parent_eq_iff[OF d, of j i] that pj_def by blast
    then have "1 \<le> j - d * i \<and> j - d * i \<le> d \<and> d * i + (j - d * i) < n" using j by simp
    then have "xs ! nat (d * i + (j - d * i)) \<le> xs ! nat c" using mx by blast
    then show ?thesis by simp
  qed
  have old1: "xs ! nat j \<le> xs ! nat pj" if "pj \<noteq> i"
    using inv j that unfolding down_except_def pj_def by blast
  have part1: "ys ! nat j \<le> ys ! nat pj" if ne: "pj \<noteq> c"
  proof (cases "pj = i")
    case True
    then have ji: "j \<noteq> i" using pj0 by auto
    show ?thesis
    proof (cases "j = c")
      case True
      then show ?thesis using \<open>pj = i\<close> yc yi lt by simp
    next
      case False
      then have "ys ! nat j = xs ! nat j" using yo ji j by simp
      then show ?thesis using kids[OF True] True yi by simp
    qed
  next
    case False
    then have jc: "j \<noteq> c" using pc pj_def by auto
    have yp: "ys ! nat pj = xs ! nat pj" using yo False ne pj0 by simp
    show ?thesis
    proof (cases "j = i")
      case True
      then have i1: "1 \<le> i" using j by simp
      have "l \<le> (i - 1) div d" using j True by simp
      then have "xs ! nat c \<le> xs ! nat ((i - 1) div d)"
        using inv c1 c(2) pc i1 unfolding down_except_def
        by (metis dual_order.trans j pj0(2) pj_def True less_imp_le)
      then show ?thesis using True yi yp pj_def by simp
    next
      case False
      then have "ys ! nat j = xs ! nat j" using yo jc j by simp
      then show ?thesis using old1[OF \<open>pj \<noteq> i\<close>] yp by simp
    qed
  qed
  have part2: "ys ! nat j \<le> ys ! nat ((c - 1) div d)" if "pj = c"
  proof -
    have "c < j" using that pj0 by simp
    then have "ys ! nat j = xs ! nat j" using yo ic i by simp
    moreover have "xs ! nat j \<le> xs ! nat c" using old1 that ic by simp
    ultimately show ?thesis using pc yi by simp
  qed
  show "((j - 1) div d \<noteq> c \<longrightarrow> ys ! nat j \<le> ys ! nat ((j - 1) div d)) \<and>
        ((j - 1) div d = c \<and> 1 \<le> c \<and> l \<le> (c - 1) div d \<longrightarrow>
           ys ! nat j \<le> ys ! nat ((c - 1) div d))"
    using part1 part2 pj_def by blast
qed

subsection \<open>List accesses within bounds\<close>

lemma py_get_nonneg: "0 \<le> i \<Longrightarrow> i < int (length xs) \<Longrightarrow> py_get xs i = Some (xs ! nat i)"
  by (simp add: py_get_def py_index_def)

lemma py_set_nonneg: "0 \<le> i \<Longrightarrow> i < int (length xs) \<Longrightarrow> py_set xs i v = Some (xs[nat i := v])"
  by (simp add: py_set_def py_index_def)

lemma swap_nonneg:
  assumes "0 \<le> a" "a < int (length xs)" "0 \<le> b" "b < int (length xs)"
  shows "swap xs a b = Inr (xs[nat a := xs ! nat b, nat b := xs ! nat a])"
  using assms by (simp add: swap_def py_get_nonneg py_set_nonneg)

lemma swapped_nth:
  assumes "0 \<le> a" "a < int (length xs)" "0 \<le> b" "b < int (length xs)" "a \<noteq> b"
  defines "ys \<equiv> xs[nat a := xs ! nat b, nat b := xs ! nat a]"
  shows "ys ! nat a = xs ! nat b" "ys ! nat b = xs ! nat a"
    "\<forall>j. 0 \<le> j \<longrightarrow> j \<noteq> a \<longrightarrow> j \<noteq> b \<longrightarrow> ys ! nat j = xs ! nat j"
  using assms by (auto simp: nth_list_update)

lemma swapped_frame:
  assumes "0 \<le> a" "a < n" "0 \<le> b" "b < n" "n \<le> int (length xs)"
  defines "ys \<equiv> xs[nat a := xs ! nat b, nat b := xs ! nat a]"
  shows "length ys = length xs" "mset ys = mset xs" "drop (nat n) ys = drop (nat n) xs"
proof -
  show "length ys = length xs" by (simp add: ys_def)
  have "nat b < length xs" "nat a < length xs" using assms by auto
  then show "mset ys = mset xs" unfolding ys_def by (rule mset_swap)
  show "drop (nat n) ys = drop (nat n) xs" using assms by (simp add: ys_def)
qed

subsection \<open>Sift-down restores the heap\<close>

text \<open>
  For a node \<open>p \<ge> 0\<close> and a tracked size within the list, \<^verbatim>\<open>_find_max\<close> returns
  without raising: either \<open>p\<close>, or a child below the size with a key strictly above
  that of \<open>p\<close>; no child below the size has a larger key than the position returned.
\<close>

lemma find_max_loop_spec:
  assumes d: "children self = d" "0 < d" and n: "heap_size self = n" "n \<le> int (length hp)"
    and p: "0 \<le> p" and ks: "\<forall>k\<in>set ks. 1 \<le> k" and mv: "mv = p \<or> (p < mv \<and> mv < n)"
  shows "\<exists>m. find_max_loop self hp p ks mv = Inr m
           \<and> (m = mv \<or> (\<exists>k\<in>set ks. m = d * p + k \<and> m < n \<and> hp ! nat mv < hp ! nat m))
           \<and> hp ! nat mv \<le> hp ! nat m
           \<and> (\<forall>k\<in>set ks. d * p + k < n \<longrightarrow> hp ! nat (d * p + k) \<le> hp ! nat m)"
  using ks mv
proof (induction ks arbitrary: mv)
  case Nil
  then show ?case by simp
next
  case (Cons k ks)
  define c where "c = d * p + k"
  have kc: "k_child self k p = c" by (simp add: k_child_def d c_def)
  have k1: "1 \<le> k" using Cons.prems(1) by simp
  have ks': "\<forall>k\<in>set ks. 1 \<le> k" using Cons.prems(1) by simp
  have pc: "p < c"
  proof -
    have "1 * p \<le> d * p" using d p by (intro mult_right_mono) auto
    then show ?thesis using k1 c_def by simp
  qed
  show ?case
  proof (cases "c < n")
    case False
    then have eq: "find_max_loop self hp p (k # ks) mv = find_max_loop self hp p ks mv"
      using kc n by simp
    from Cons.IH[OF ks' Cons.prems(2)] obtain m where m:
      "find_max_loop self hp p ks mv = Inr m"
      "m = mv \<or> (\<exists>k\<in>set ks. m = d * p + k \<and> m < n \<and> hp ! nat mv < hp ! nat m)"
      "hp ! nat mv \<le> hp ! nat m"
      "\<forall>k\<in>set ks. d * p + k < n \<longrightarrow> hp ! nat (d * p + k) \<le> hp ! nat m" by blast
    show ?thesis using m eq False c_def by auto
  next
    case True
    have gc: "py_get hp c = Some (hp ! nat c)"
      using True pc p n by (intro py_get_nonneg) auto
    have mvb: "0 \<le> mv \<and> mv < n" using Cons.prems(2) p pc True by auto
    have gm: "py_get hp mv = Some (hp ! nat mv)"
      using mvb n by (intro py_get_nonneg) auto
    define mv' where "mv' = (if hp ! nat c > hp ! nat mv then c else mv)"
    have eq: "find_max_loop self hp p (k # ks) mv = find_max_loop self hp p ks mv'"
      using kc n True gc gm by (simp add: mv'_def)
    have mv'b: "mv' = p \<or> (p < mv' \<and> mv' < n)"
      using Cons.prems(2) pc True by (auto simp: mv'_def)
    from Cons.IH[OF ks' mv'b] obtain m where m:
      "find_max_loop self hp p ks mv' = Inr m"
      "m = mv' \<or> (\<exists>k\<in>set ks. m = d * p + k \<and> m < n \<and> hp ! nat mv' < hp ! nat m)"
      "hp ! nat mv' \<le> hp ! nat m"
      "\<forall>k\<in>set ks. d * p + k < n \<longrightarrow> hp ! nat (d * p + k) \<le> hp ! nat m" by blast
    have ge: "hp ! nat mv \<le> hp ! nat mv'" "hp ! nat c \<le> hp ! nat mv'"
      by (auto simp: mv'_def)
    have a: "m = mv \<or> (\<exists>k\<in>set (k # ks). m = d * p + k \<and> m < n \<and> hp ! nat mv < hp ! nat m)"
    proof (cases "m = mv'")
      case True
      then show ?thesis using \<open>c < n\<close> c_def by (auto simp: mv'_def)
    next
      case False
      then obtain k' where "k' \<in> set ks" "m = d * p + k'" "m < n" "hp ! nat mv' < hp ! nat m"
        using m(2) by blast
      then show ?thesis using ge(1) by auto
    qed
    have b: "hp ! nat mv \<le> hp ! nat m" using ge(1) m(3) by simp
    have c: "\<forall>k\<in>set (k # ks). d * p + k < n \<longrightarrow> hp ! nat (d * p + k) \<le> hp ! nat m"
      using m(4) ge(2) m(3) c_def by auto
    show ?thesis using eq m(1) a b c by simp
  qed
qed

lemma find_max_spec:
  assumes d: "children self = d" "0 < d" and n: "heap_size self = n" "n \<le> int (length hp)"
    and p: "0 \<le> p"
  shows "\<exists>m. find_max self hp p = Inr m
           \<and> (m = p \<or> (\<exists>k. 1 \<le> k \<and> k \<le> d \<and> m = d * p + k \<and> m < n \<and> hp ! nat p < hp ! nat m))
           \<and> (\<forall>k. 1 \<le> k \<and> k \<le> d \<and> d * p + k < n \<longrightarrow> hp ! nat (d * p + k) \<le> hp ! nat m)"
proof -
  have "\<forall>k\<in>set [1..d]. 1 \<le> k" by simp
  from find_max_loop_spec[OF d n p this, of p]
  show ?thesis unfolding find_max_def d by auto
qed

lemma max_heapify_total:
  assumes "children self = d" "0 < d" "heap_size self = n" "n \<le> int (length hp)" "0 \<le> i"
  shows "\<exists>hp'. max_heapify self hp i = (Inr (), hp')
           \<and> length hp' = length hp \<and> mset hp' = mset hp
           \<and> drop (nat n) hp' = drop (nat n) hp
           \<and> (down_except d l n i hp \<longrightarrow> heap_from d l n hp')"
  using assms
proof (induction self hp i rule: max_heapify.induct)
  case (1 self hp node)
  note d = "1.prems"(1,2) and n = "1.prems"(3,4) and node = "1.prems"(5)
  from find_max_spec[OF d n node] obtain m where fm: "find_max self hp node = Inr m"
    and m: "m = node \<or> (\<exists>k. 1 \<le> k \<and> k \<le> d \<and> m = d * node + k \<and> m < n
                \<and> hp ! nat node < hp ! nat m)"
    and mx: "\<forall>k. 1 \<le> k \<and> k \<le> d \<and> d * node + k < n \<longrightarrow> hp ! nat (d * node + k) \<le> hp ! nat m"
    by blast
  show ?case
  proof (cases "m = node")
    case True
    have "max_heapify self hp node = (Inr (), hp)"
      using fm True by (subst max_heapify.simps) simp
    moreover have "heap_from d l n hp" if "down_except d l n node hp"
      using down_except_done[OF d(2) that] mx True by simp
    ultimately show ?thesis by simp
  next
    case False
    then obtain k where k: "1 \<le> k" "k \<le> d" and mk: "m = d * node + k" and mn: "m < n"
      and lt: "hp ! nat node < hp ! nat m" using m by blast
    have nm: "node < m"
    proof -
      have "1 * node \<le> d * node" using d node by (intro mult_right_mono) auto
      then show ?thesis using k mk by simp
    qed
    define hp1 where "hp1 = hp[nat node := hp ! nat m, nat m := hp ! nat node]"
    have b: "0 \<le> node" "node < n" "0 \<le> m" "m < n" using node nm mn by auto
    have bl: "node < int (length hp)" "m < int (length hp)" using b n by auto
    have sw: "swap hp node m = Inr hp1"
      unfolding hp1_def using b(1) bl(1) b(3) bl(2) by (rule swap_nonneg)
    have fr: "length hp1 = length hp" "mset hp1 = mset hp" "drop (nat n) hp1 = drop (nat n) hp"
      unfolding hp1_def using swapped_frame[OF b n(2)] by auto
    have nth: "hp1 ! nat node = hp ! nat m" "hp1 ! nat m = hp ! nat node"
      "\<forall>j. 0 \<le> j \<longrightarrow> j \<noteq> node \<longrightarrow> j \<noteq> m \<longrightarrow> hp1 ! nat j = hp ! nat j"
      unfolding hp1_def using swapped_nth[OF b(1) bl(1) b(3) bl(2)] nm by auto
    have inv1: "down_except d l n m hp1" if "down_except d l n node hp"
      using down_except_swap[OF d(2) node k mk mn that lt mx nth(2) nth(1) nth(3)] .
    have n1: "n \<le> int (length hp1)" using n fr by simp
    from "1.IH"[OF fm False sw d n(1) n1 b(3)]
    obtain hp' where r: "max_heapify self hp1 m = (Inr (), hp')"
      "length hp' = length hp1" "mset hp' = mset hp1" "drop (nat n) hp' = drop (nat n) hp1"
      "down_except d l n m hp1 \<longrightarrow> heap_from d l n hp'"
      by blast
    have "max_heapify self hp node = max_heapify self hp1 m"
      using fm False sw by (subst max_heapify.simps) simp
    then show ?thesis using r fr inv1 by auto
  qed
qed

lemma max_heapify_spec:
  assumes "children self = d" "0 < d" "heap_size self = n" "n \<le> int (length hp)" "0 \<le> i"
    "down_except d l n i hp"
  shows "\<exists>hp'. max_heapify self hp i = (Inr (), hp') \<and> heap_from d l n hp'
           \<and> length hp' = length hp \<and> mset hp' = mset hp
           \<and> drop (nat n) hp' = drop (nat n) hp"
  using max_heapify_total[OF assms(1-5), of l] assms(6) by auto

subsection \<open>Building\<close>

lemma max_heap_property_iff:
  assumes "0 < d"
  shows "max_heap_property d n xs \<longleftrightarrow> heap_from d 0 n xs"
proof
  assume h: "max_heap_property d n xs"
  show "heap_from d 0 n xs"
    unfolding heap_from_def
  proof (intro allI impI)
    fix j assume j: "1 \<le> j \<and> j < n \<and> 0 \<le> (j - 1) div d"
    define i where "i = (j - 1) div d"
    have b: "d * i + 1 \<le> j \<and> j \<le> d * i + d" using parent_eq_iff[OF assms, of j i] i_def by simp
    have "i < j" using parent_lt[OF assms, of j] j i_def by simp
    then have "i \<in> set [0..n - 1]" using j i_def by simp
    moreover have "j - d * i \<in> set [1..d]" using b by simp
    moreover have "d * i + (j - d * i) < n" using j by simp
    ultimately have "xs ! nat (d * i + (j - d * i)) \<le> xs ! nat i"
      using h unfolding max_heap_property_def by blast
    then show "xs ! nat j \<le> xs ! nat ((j - 1) div d)" using i_def by simp
  qed
next
  assume h: "heap_from d 0 n xs"
  show "max_heap_property d n xs"
    unfolding max_heap_property_def
  proof (intro ballI impI)
    fix i k assume i: "i \<in> set [0..n - 1]" and k: "k \<in> set [1..d]" and c: "d * i + k < n"
    define j where "j = d * i + k"
    have pj: "(j - 1) div d = i" using parent_eq_iff[OF assms, of j i] k j_def by simp
    have "0 \<le> d * i" using assms i by simp
    then have "1 \<le> j" using k j_def by simp
    then have "1 \<le> j \<and> j < n \<and> 0 \<le> (j - 1) div d" using c pj i j_def by simp
    then have "xs ! nat j \<le> xs ! nat ((j - 1) div d)"
      using h unfolding heap_from_def by blast
    then show "xs ! nat (d * i + k) \<le> xs ! nat i" using pj j_def by simp
  qed
qed

lemma heap_from_start:
  assumes "2 \<le> d"
  shows "heap_from d (n div 2) n xs"
  unfolding heap_from_def
proof (intro allI impI)
  fix j assume j: "1 \<le> j \<and> j < n \<and> n div 2 \<le> (j - 1) div d"
  have "(j - 1) div d \<le> (j - 1) div 2" using j assms by (intro zdiv_mono2) auto
  also have "\<dots> \<le> (n - 2) div 2" using j by (intro zdiv_mono1) auto
  also have "\<dots> < n div 2" by simp
  finally show "xs ! nat j \<le> xs ! nat ((j - 1) div d)" using j by simp
qed

lemma heap_from_down_except:
  assumes "0 < d" "heap_from d (i + 1) n xs"
  shows "down_except d i n i xs"
  unfolding down_except_def
proof (intro allI impI conjI)
  fix j assume j: "1 \<le> j \<and> j < n \<and> i \<le> (j - 1) div d" and ne: "(j - 1) div d \<noteq> i"
  then show "xs ! nat j \<le> xs ! nat ((j - 1) div d)"
    using assms(2) unfolding heap_from_def by simp
next
  fix j assume "(j - 1) div d = i \<and> 1 \<le> i \<and> i \<le> (i - 1) div d"
  then have False using parent_lt[OF assms(1), of i] by simp
  then show "xs ! nat j \<le> xs ! nat ((i - 1) div d)" ..
qed

lemma build_loop_spec:
  assumes "children self = d" "0 < d" "heap_size self = n" "n \<le> int (length (heap self))"
    "- 1 \<le> i" "heap_from d (i + 1) n (heap self)"
  shows "\<exists>hp'. build_loop self (range_down i (- 1)) = (Inr (), self\<lparr>heap := hp'\<rparr>)
           \<and> heap_from d 0 n hp' \<and> length hp' = length (heap self)
           \<and> mset hp' = mset (heap self)
           \<and> drop (nat n) hp' = drop (nat n) (heap self)"
  using assms
proof (induction "nat (i + 1)" arbitrary: i self)
  case 0
  then have "i = - 1" by simp
  then have "build_loop self (range_down i (- 1)) = (Inr (), self\<lparr>heap := heap self\<rparr>)"
    by (subst range_down.simps) simp
  then show ?case using "0.prems"(6) \<open>i = - 1\<close> by (intro exI[of _ "heap self"]) simp
next
  case (Suc m)
  then have i0: "0 \<le> i" by simp
  note d = Suc.prems(1,2) and n = Suc.prems(3,4)
  have rd: "range_down i (- 1) = i # range_down (i - 1) (- 1)"
    using i0 by (subst range_down.simps) simp
  from max_heapify_spec[OF d n i0 heap_from_down_except[OF d(2) Suc.prems(6)]]
  obtain hp1 where h1: "max_heapify self (heap self) i = (Inr (), hp1)" "heap_from d i n hp1"
    "length hp1 = length (heap self)" "mset hp1 = mset (heap self)"
    "drop (nat n) hp1 = drop (nat n) (heap self)" by blast
  define self1 where "self1 = self\<lparr>heap := hp1\<rparr>"
  have s1: "children self1 = d" "heap_size self1 = n" "n \<le> int (length (heap self1))"
    "heap_from d (i - 1 + 1) n (heap self1)" using d n h1 by (simp_all add: self1_def)
  have m: "m = nat (i - 1 + 1)" using Suc.hyps(2) by simp
  from Suc.hyps(1)[OF m s1(1) d(2) s1(2,3) _ s1(4)] i0
  obtain hp' where h': "build_loop self1 (range_down (i - 1) (- 1)) = (Inr (), self1\<lparr>heap := hp'\<rparr>)"
    "heap_from d 0 n hp'" "length hp' = length (heap self1)" "mset hp' = mset (heap self1)"
    "drop (nat n) hp' = drop (nat n) (heap self1)" by auto
  have "build_loop self (range_down i (- 1)) = build_loop self1 (range_down (i - 1) (- 1))"
    using rd h1(1) by (simp add: self1_def)
  then show ?case using h' h1 by (intro exI[of _ hp']) (simp add: self1_def)
qed

lemma build_max_heap_spec:
  assumes "children self = d" "2 \<le> d" "heap_size self = n" "0 \<le> n" "n \<le> int (length data)"
  shows "\<exists>hp'. build_max_heap self data = (Inr (), self\<lparr>heap := hp'\<rparr>)
           \<and> heap_from d 0 n hp' \<and> length hp' = length data \<and> mset hp' = mset data
           \<and> drop (nat n) hp' = drop (nat n) data"
proof -
  define self1 where "self1 = self\<lparr>heap := data\<rparr>"
  have d0: "0 < d" using assms(2) by simp
  have s1: "children self1 = d" "heap_size self1 = n" "n \<le> int (length (heap self1))"
    using assms by (simp_all add: self1_def)
  have le: "- 1 \<le> n div 2 - 1" using assms(4) by (simp add: pos_imp_zdiv_nonneg_iff)
  have hf: "heap_from d (n div 2 - 1 + 1) n (heap self1)"
    using heap_from_start[OF assms(2), of n] by simp
  from build_loop_spec[OF s1(1) d0 s1(2,3) le hf]
  obtain hp' where h: "build_loop self1 (range_down (n div 2 - 1) (- 1)) = (Inr (), self1\<lparr>heap := hp'\<rparr>)"
    "heap_from d 0 n hp'" "length hp' = length (heap self1)" "mset hp' = mset (heap self1)"
    "drop (nat n) hp' = drop (nat n) (heap self1)" by blast
  have "build_max_heap self data = build_loop self1 (range_down (n div 2 - 1) (- 1))"
    by (simp add: build_max_heap_def build_indices_def self1_def assms(3))
  then show ?thesis using h by (intro exI[of _ hp']) (simp add: self1_def)
qed

lemma max_heapify_length: "length (snd (max_heapify self hp i)) = length hp"
proof (induction self hp i rule: max_heapify.induct)
  case (1 self hp node)
  show ?case
  proof (cases "find_max self hp node")
    case (Inl e)
    then show ?thesis by (subst max_heapify.simps) simp
  next
    case (Inr m)
    show ?thesis
    proof (cases "m = node")
      case True
      then show ?thesis using Inr by (subst max_heapify.simps) simp
    next
      case False
      show ?thesis
      proof (cases "swap hp node m")
        case (Inl e)
        then show ?thesis using Inr False by (subst max_heapify.simps) simp
      next
        case sw: (Inr hp1)
        have "max_heapify self hp node = max_heapify self hp1 m"
          using Inr False sw by (subst max_heapify.simps) simp
        then show ?thesis using "1.IH"[OF Inr False sw] swap_length[OF sw] by simp
      qed
    qed
  qed
qed

lemma build_loop_fields:
  "heap_size (snd (build_loop self is)) = heap_size self
   \<and> children (snd (build_loop self is)) = children self
   \<and> length (heap (snd (build_loop self is))) = length (heap self)"
proof (induction "is" arbitrary: self)
  case Nil
  then show ?case by simp
next
  case (Cons i "is")
  obtain r hp where mh: "max_heapify self (heap self) i = (r, hp)" by (cases "max_heapify self (heap self) i")
  have len: "length hp = length (heap self)" using max_heapify_length[of self "heap self" i] mh by simp
  show ?case
  proof (cases r)
    case (Inl e)
    then show ?thesis using mh len by simp
  next
    case (Inr u)
    then have "build_loop self (i # is) = build_loop (self\<lparr>heap := hp\<rparr>) is" using mh by simp
    then show ?thesis using Cons.IH[of "self\<lparr>heap := hp\<rparr>"] len by simp
  qed
qed

lemma range_down_upto: "range_down i (- 1) = rev [0..i]"
proof (induction "nat (i + 1)" arbitrary: i)
  case 0
  then show ?case by (subst range_down.simps) simp
next
  case (Suc m)
  then have i0: "0 \<le> i" and m: "m = nat (i - 1 + 1)" by simp_all
  have "range_down i (- 1) = i # range_down (i - 1) (- 1)"
    using i0 by (subst range_down.simps) simp
  also have "\<dots> = i # rev [0..i - 1]" using Suc.hyps(1)[OF m] by simp
  also have "\<dots> = rev [0..i]" using i0 by (simp add: upto_rec2)
  finally show ?case .
qed

lemma build_max_heap_size_kept:
  "heap_size (snd (build_max_heap self data)) = heap_size self
   \<and> length (heap (snd (build_max_heap self data))) = length data
   \<and> (heap_size (snd (build_max_heap self data))
        = int (length (heap (snd (build_max_heap self data))))
      \<longleftrightarrow> heap_size self = int (length data))"
  using build_loop_fields[of "self\<lparr>heap := data\<rparr>" "build_indices (self\<lparr>heap := data\<rparr>)"]
  by (simp add: build_max_heap_def Let_def)

text \<open>
  \<^verbatim>\<open>max_heapify\<close> reads the branching factor and the size of the object only, so the
  loop of \<^verbatim>\<open>build_max_heap\<close> is a left fold of \<^verbatim>\<open>max_heapify\<close> over its indices that
  stops at the first exception.
\<close>

lemma find_max_loop_fields:
  assumes "children s = children t" "heap_size s = heap_size t"
  shows "find_max_loop s hp p ks mv = find_max_loop t hp p ks mv"
  using assms
  by (induction ks arbitrary: mv) (simp_all add: k_child_def Let_def split: option.splits)

lemma find_max_fields:
  assumes "children s = children t" "heap_size s = heap_size t"
  shows "find_max s hp p = find_max t hp p"
  using find_max_loop_fields[OF assms] assms(1) by (simp add: find_max_def)

lemma max_heapify_fields:
  assumes "children s = children t" "heap_size s = heap_size t"
  shows "max_heapify s hp i = max_heapify t hp i"
  using assms
proof (induction s hp i rule: max_heapify.induct)
  case (1 self hp node)
  note fm = find_max_fields[OF "1.prems", of hp node]
  show ?case
  proof (cases "find_max self hp node")
    case (Inl e)
    then show ?thesis using fm
      by (subst max_heapify.simps, subst (2) max_heapify.simps) simp
  next
    case (Inr m)
    show ?thesis
    proof (cases "m = node")
      case True
      then show ?thesis using Inr fm
        by (subst max_heapify.simps, subst (2) max_heapify.simps) simp
    next
      case False
      show ?thesis
      proof (cases "swap hp node m")
        case (Inl e)
        then show ?thesis using Inr False fm
          by (subst max_heapify.simps, subst (2) max_heapify.simps) simp
      next
        case sw: (Inr hp1)
        have "max_heapify self hp node = max_heapify self hp1 m"
          using Inr False sw by (subst max_heapify.simps) simp
        moreover have "max_heapify t hp node = max_heapify t hp1 m"
          using Inr False sw fm by (subst max_heapify.simps) simp
        ultimately show ?thesis using "1.IH"[OF Inr False sw "1.prems"] by simp
      qed
    qed
  qed
qed

lemma foldl_sift_raised:
  "foldl (\<lambda>(r, hp) i. case r of Inl e \<Rightarrow> (Inl e, hp) | Inr u \<Rightarrow> max_heapify s hp i)
     (Inl e, hp) is = (Inl e, hp)"
  by (induction "is") simp_all

lemma build_loop_foldl:
  assumes "children self = children s" "heap_size self = heap_size s"
  shows "build_loop self is =
     (case foldl (\<lambda>(r, hp) i. case r of Inl e \<Rightarrow> (Inl e, hp) | Inr u \<Rightarrow> max_heapify s hp i)
             (Inr (), heap self) is of
        (r, hp) \<Rightarrow> (r, self\<lparr>heap := hp\<rparr>))"
  using assms
proof (induction "is" arbitrary: self)
  case Nil
  then show ?case by simp
next
  case (Cons i "is")
  have eq: "max_heapify self (heap self) i = max_heapify s (heap self) i"
    using max_heapify_fields[OF Cons.prems] .
  obtain r hp where mh: "max_heapify s (heap self) i = (r, hp)"
    by (cases "max_heapify s (heap self) i")
  show ?case
  proof (cases r)
    case (Inl e)
    then show ?thesis using mh eq by (simp add: foldl_sift_raised)
  next
    case (Inr u)
    have "children (self\<lparr>heap := hp\<rparr>) = children s" "heap_size (self\<lparr>heap := hp\<rparr>) = heap_size s"
      using Cons.prems by simp_all
    from Cons.IH[OF this] show ?thesis using mh eq Inr by simp
  qed
qed

lemma foldl_sift_total:
  assumes "children s = d" "0 < d" "heap_size s = n" "n \<le> int (length hp)"
    "\<forall>i\<in>set is. 0 \<le> i"
  shows "foldl (\<lambda>(r, hp) i. case r of Inl e \<Rightarrow> (Inl e, hp) | Inr u \<Rightarrow> max_heapify s hp i)
           (Inr (), hp) is
         = (Inr (), foldl (\<lambda>hp i. snd (max_heapify s hp i)) hp is)"
  using assms(4,5)
proof (induction "is" arbitrary: hp)
  case Nil
  then show ?case by simp
next
  case (Cons i "is")
  have i0: "0 \<le> i" using Cons.prems(2) by simp
  from max_heapify_total[OF assms(1,2,3) Cons.prems(1) i0, of 0]
  obtain hp' where h: "max_heapify s hp i = (Inr (), hp')" "length hp' = length hp" by blast
  have "n \<le> int (length hp')" "\<forall>i\<in>set is. 0 \<le> i" using h Cons.prems by simp_all
  from Cons.IH[OF this] show ?case using h(1) by simp
qed

subsection \<open>The root holds the maximum\<close>

lemma heap_root_max:
  assumes d: "0 < d" and h: "heap_from d 0 n xs"
  shows "0 \<le> j \<Longrightarrow> j < n \<Longrightarrow> xs ! nat j \<le> xs ! 0"
proof (induction "nat j" arbitrary: j rule: less_induct)
  case less
  show ?case
  proof (cases "j = 0")
    case True
    then show ?thesis by simp
  next
    case False
    then have j1: "1 \<le> j" using less.prems by simp
    define p where "p = (j - 1) div d"
    have p: "0 \<le> p" "p < j" using parent_nonneg[OF d j1] parent_lt[OF d j1] by (simp_all add: p_def)
    have "xs ! nat j \<le> xs ! nat p" using h j1 less.prems p unfolding heap_from_def p_def by simp
    moreover have "xs ! nat p \<le> xs ! 0" using less.hyps[of p] p less.prems by simp
    ultimately show ?thesis by simp
  qed
qed

lemma heap_root_Max:
  assumes "0 < d" "heap_from d 0 (int (length xs)) xs" "xs \<noteq> []"
  shows "xs ! 0 = Max (set xs)"
proof -
  have "\<forall>x\<in>set xs. x \<le> xs ! 0"
  proof
    fix x assume "x \<in> set xs"
    then obtain k where k: "k < length xs" "x = xs ! k" by (auto simp: in_set_conv_nth)
    then show "x \<le> xs ! 0" using heap_root_max[OF assms(1,2), of "int k"] by simp
  qed
  moreover have "xs ! 0 \<in> set xs" using assms(3) by simp
  ultimately show ?thesis by (intro Max_eqI[symmetric]) auto
qed

subsection \<open>Overwriting a position with the last key\<close>

lemma replace_last:
  assumes i: "0 \<le> i" "i < n" and n: "n = int (length xs)"
  defines "ys \<equiv> butlast (xs[nat i := xs ! nat (n - 1)])"
  shows "int (length ys) = n - 1"
    and "\<forall>j. 0 \<le> j \<and> j < n - 1 \<and> j \<noteq> i \<longrightarrow> ys ! nat j = xs ! nat j"
    and "i < n - 1 \<longrightarrow> ys ! nat i = xs ! nat (n - 1)"
    and "mset ys = mset xs - {#xs ! nat i#}"
proof -
  have ne: "xs \<noteq> []" using i n by auto
  have "nat (n - 1) = length xs - 1" using n by simp
  then have lst: "xs ! nat (n - 1) = last xs" using ne by (simp add: last_conv_nth)
  have l0: "0 < length xs" using ne by simp
  have "length ys = length xs - 1" by (simp add: ys_def)
  then show "int (length ys) = n - 1" using l0 n by linarith
  show "\<forall>j. 0 \<le> j \<and> j < n - 1 \<and> j \<noteq> i \<longrightarrow> ys ! nat j = xs ! nat j"
    using i n by (auto simp: ys_def nth_butlast nth_list_update)
  show "i < n - 1 \<longrightarrow> ys ! nat i = xs ! nat (n - 1)"
    using i n by (auto simp: ys_def nth_butlast nth_list_update)
  show "mset ys = mset xs - {#xs ! nat i#}"
  proof (cases "i = n - 1")
    case True
    then have "xs[nat i := xs ! nat (n - 1)] = xs" by simp
    then have "ys = butlast xs" by (simp add: ys_def)
    moreover have "mset xs = mset (butlast xs) + {#last xs#}"
      using ne by (metis append_butlast_last_id mset.simps(1) mset.simps(2) mset_append add_mset_add_single union_mset_add_mset_right add.right_neutral)
    ultimately show ?thesis using True lst by simp
  next
    case False
    then have il: "nat i < length (butlast xs)" using i n by simp
    have "ys = (butlast xs)[nat i := last xs]"
      using il lst by (simp add: ys_def butlast_list_update)
    then have "mset ys = mset (butlast xs) - {#butlast xs ! nat i#} + {#last xs#}"
      using il by (simp add: mset_update)
    moreover have "butlast xs ! nat i = xs ! nat i" using il by (simp add: nth_butlast)
    moreover have "mset xs = mset (butlast xs) + {#last xs#}"
      using ne by (metis append_butlast_last_id mset.simps(1) mset.simps(2) mset_append add_mset_add_single union_mset_add_mset_right add.right_neutral)
    moreover have "xs ! nat i \<in># mset (butlast xs)"
      using il \<open>butlast xs ! nat i = xs ! nat i\<close> by (metis nth_mem_mset)
    ultimately show ?thesis by simp
  qed
qed

lemma heap_from_replace_last:
  assumes d: "0 < d" and h: "heap_from d 0 n xs" and i: "0 \<le> i" "i < n"
    and n: "n = int (length xs)"
  shows "both_except d (n - 1) i (butlast (xs[nat i := xs ! nat (n - 1)]))"
  unfolding both_except_def
proof (intro allI impI)
  define ys where "ys = butlast (xs[nat i := xs ! nat (n - 1)])"
  have same: "\<forall>j. 0 \<le> j \<and> j < n - 1 \<and> j \<noteq> i \<longrightarrow> ys ! nat j = xs ! nat j"
    using replace_last(2)[OF i n] by (simp add: ys_def)
  have old: "xs ! nat j \<le> xs ! nat ((j - 1) div d)" if "1 \<le> j" "j < n" for j
    using h that parent_nonneg[OF d that(1)] unfolding heap_from_def by simp
  fix j assume j: "1 \<le> j \<and> j < n - 1"
  define pj where "pj = (j - 1) div d"
  have pj: "0 \<le> pj" "pj < j" using parent_nonneg[OF d, of j] parent_lt[OF d, of j] j by (simp_all add: pj_def)
  have a: "ys ! nat j \<le> ys ! nat pj" if "j \<noteq> i \<and> pj \<noteq> i"
  proof -
    have "ys ! nat j = xs ! nat j" "ys ! nat pj = xs ! nat pj" using same that j pj by simp_all
    then show ?thesis using old[of j] j pj_def by simp
  qed
  have b: "ys ! nat j \<le> ys ! nat ((i - 1) div d)" if "pj = i \<and> 1 \<le> i"
  proof -
    define q where "q = (i - 1) div d"
    have q: "0 \<le> q" "q < i" using parent_nonneg[OF d, of i] parent_lt[OF d, of i] that by (simp_all add: q_def)
    have "ys ! nat j = xs ! nat j" "ys ! nat q = xs ! nat q" using same that j pj q by simp_all
    moreover have "xs ! nat j \<le> xs ! nat i" using old[of j] j that pj_def by simp
    moreover have "xs ! nat i \<le> xs ! nat q" using old[of i] that i q_def by simp
    ultimately show ?thesis using q_def by simp
  qed
  show "(j \<noteq> i \<and> (j - 1) div d \<noteq> i \<longrightarrow>
          butlast (xs[nat i := xs ! nat (n - 1)]) ! nat j
            \<le> butlast (xs[nat i := xs ! nat (n - 1)]) ! nat ((j - 1) div d)) \<and>
        ((j - 1) div d = i \<and> 1 \<le> i \<longrightarrow>
          butlast (xs[nat i := xs ! nat (n - 1)]) ! nat j
            \<le> butlast (xs[nat i := xs ! nat (n - 1)]) ! nat ((i - 1) div d))"
    using a b unfolding ys_def pj_def by blast
qed

lemma both_except_down:
  assumes "both_except d n i xs"
    and "i = 0 \<or> n \<le> i \<or> xs ! nat i \<le> xs ! nat ((i - 1) div d)"
  shows "down_except d 0 n i xs"
  unfolding down_except_def
proof (intro allI impI)
  fix j assume j: "1 \<le> j \<and> j < n \<and> 0 \<le> (j - 1) div d"
  have "xs ! nat j \<le> xs ! nat ((j - 1) div d)" if "(j - 1) div d \<noteq> i"
  proof (cases "j = i")
    case True
    then show ?thesis using assms(2) j by auto
  next
    case False
    then show ?thesis using assms(1) j that unfolding both_except_def by blast
  qed
  moreover have "xs ! nat j \<le> xs ! nat ((i - 1) div d)" if "(j - 1) div d = i \<and> 1 \<le> i"
    using assms(1) j that unfolding both_except_def by blast
  ultimately show "((j - 1) div d \<noteq> i \<longrightarrow> xs ! nat j \<le> xs ! nat ((j - 1) div d)) \<and>
        ((j - 1) div d = i \<and> 1 \<le> i \<and> 0 \<le> (i - 1) div d \<longrightarrow>
           xs ! nat j \<le> xs ! nat ((i - 1) div d))" by blast
qed

lemma both_except_up:
  assumes "both_except d n i xs" and "1 \<le> i" "xs ! nat ((i - 1) div d) < xs ! nat i"
  shows "up_except d n i xs"
  unfolding up_except_def
proof (intro allI impI)
  fix j assume j: "1 \<le> j \<and> j < n"
  have b: "xs ! nat j \<le> xs ! nat ((i - 1) div d)" if "(j - 1) div d = i"
    using assms(1,2) j that unfolding both_except_def by blast
  have "xs ! nat j \<le> xs ! nat ((j - 1) div d)" if "j \<noteq> i"
  proof (cases "(j - 1) div d = i")
    case True
    then show ?thesis using b assms(3) by simp
  next
    case False
    then show ?thesis using assms(1) j that unfolding both_except_def by blast
  qed
  then show "(j \<noteq> i \<longrightarrow> xs ! nat j \<le> xs ! nat ((j - 1) div d)) \<and>
        ((j - 1) div d = i \<and> 1 \<le> i \<longrightarrow> xs ! nat j \<le> xs ! nat ((i - 1) div d))"
    using b by blast
qed

lemma extract_max_spec:
  assumes d: "children self = d" "0 < d" and n: "heap_size self = n" "n = int (length (heap self))"
    and n1: "1 \<le> n"
  shows "\<exists>hp'. extract_max self = (Inr (heap self ! 0), self\<lparr>heap := hp', heap_size := n - 1\<rparr>)
           \<and> int (length hp') = n - 1
           \<and> mset hp' = mset (heap self) - {#heap self ! 0#}
           \<and> (heap_from d 0 n (heap self) \<longrightarrow> heap_from d 0 (n - 1) hp')"
proof -
  define hp where "hp = heap self"
  define hp1 where "hp1 = hp[nat 0 := hp ! nat (n - 1)]"
  define ys where "ys = butlast hp1"
  define self1 where "self1 = self\<lparr>heap := ys, heap_size := heap_size self - 1\<rparr>"
  have nl: "n = int (length hp)" using n by (simp add: hp_def)
  have z: "(0::int) \<le> 0" "0 < n" using n1 by simp_all
  have g0: "py_get hp 0 = Some (hp ! 0)" using py_get_nonneg[of 0 hp] z nl by simp
  have gl: "py_get hp (n - 1) = Some (hp ! nat (n - 1))" using n1 nl by (intro py_get_nonneg) auto
  have st: "py_set hp 0 (hp ! nat (n - 1)) = Some hp1"
    using py_set_nonneg[of 0 hp] z nl by (simp add: hp1_def)
  have "hp1 \<noteq> []" using n1 nl by (auto simp: hp1_def)
  then have pp: "py_pop hp1 = Some ys" by (simp add: py_pop_def ys_def)
  have ys: "int (length ys) = n - 1" "mset ys = mset hp - {#hp ! nat 0#}"
    using replace_last(1,4)[OF z nl] by (simp_all add: ys_def hp1_def)
  have s1: "children self1 = d" "heap_size self1 = n - 1" "n - 1 \<le> int (length ys)"
    using d n ys by (simp_all add: self1_def)
  from max_heapify_total[OF s1(1) d(2) s1(2,3) z(1), of 0]
  obtain hp' where h: "max_heapify self1 ys 0 = (Inr (), hp')" "length hp' = length ys"
    "mset hp' = mset ys" "down_except d 0 (n - 1) 0 ys \<longrightarrow> heap_from d 0 (n - 1) hp'" by blast
  have ex: "extract_max self = (Inr (hp ! 0), self1\<lparr>heap := hp'\<rparr>)"
    using n1 n(1) g0 gl st pp h(1)[unfolded self1_def]
    by (simp add: extract_max_def hp_def[symmetric] self1_def Let_def)
  have inv: "heap_from d 0 (n - 1) hp'" if "heap_from d 0 n hp"
  proof -
    have "both_except d (n - 1) 0 ys"
      using heap_from_replace_last[OF d(2) that z nl] by (simp add: ys_def hp1_def)
    then have "down_except d 0 (n - 1) 0 ys" by (intro both_except_down) auto
    then show ?thesis using h(4) by simp
  qed
  show ?thesis
    using ex ys h inv n by (intro exI[of _ hp']) (simp add: self1_def hp_def)
qed

subsection \<open>Sift-up restores the heap\<close>

lemma up_except_done:
  assumes "up_except d n i xs"
    and "i \<le> 0 \<or> n \<le> i \<or> xs ! nat i \<le> xs ! nat ((i - 1) div d)"
  shows "heap_from d 0 n xs"
  unfolding heap_from_def
proof (intro allI impI)
  fix j assume j: "1 \<le> j \<and> j < n \<and> 0 \<le> (j - 1) div d"
  show "xs ! nat j \<le> xs ! nat ((j - 1) div d)"
  proof (cases "j = i")
    case True
    then show ?thesis using assms(2) j by auto
  next
    case False
    then show ?thesis using assms(1) j unfolding up_except_def by blast
  qed
qed

lemma up_except_swap:
  assumes d: "0 < d" and i: "1 \<le> i" "i < n" and p: "p = (i - 1) div d"
    and inv: "up_except d n i xs" and lt: "xs ! nat p < xs ! nat i"
    and yp: "ys ! nat p = xs ! nat i" and yi: "ys ! nat i = xs ! nat p"
    and yo: "\<forall>j. 0 \<le> j \<longrightarrow> j \<noteq> i \<longrightarrow> j \<noteq> p \<longrightarrow> ys ! nat j = xs ! nat j"
  shows "up_except d n p ys"
  unfolding up_except_def
proof (intro allI impI)
  fix j assume j: "1 \<le> j \<and> j < n"
  define pj where "pj = (j - 1) div d"
  have pj0: "0 \<le> pj" "pj < j"
    using parent_nonneg[OF d, of j] parent_lt[OF d, of j] j pj_def by auto
  have p0: "0 \<le> p" "p < i" using parent_nonneg[OF d i(1)] parent_lt[OF d i(1)] p by auto
  have old1: "xs ! nat j \<le> xs ! nat pj" if "j \<noteq> i"
    using inv j that unfolding up_except_def pj_def by blast
  have old2: "xs ! nat j \<le> xs ! nat p" if "pj = i"
    using inv j that i(1) unfolding up_except_def pj_def p by blast
  have part1: "ys ! nat j \<le> ys ! nat pj" if ne: "j \<noteq> p"
  proof (cases "j = i")
    case True
    then have "pj = p" using pj_def p by simp
    then show ?thesis using True yp yi lt by simp
  next
    case False
    then have yj: "ys ! nat j = xs ! nat j" using yo ne j by simp
    show ?thesis
    proof (cases "pj = p")
      case True
      then show ?thesis using yj yp old1[OF False] lt by simp
    next
      case np: False
      show ?thesis
      proof (cases "pj = i")
        case True
        then show ?thesis using yj yi old2 by simp
      next
        case ni: False
        then have "ys ! nat pj = xs ! nat pj" using yo np pj0 by simp
        then show ?thesis using yj old1[OF False] by simp
      qed
    qed
  qed
  have part2: "ys ! nat j \<le> ys ! nat ((p - 1) div d)" if "pj = p" "1 \<le> p"
  proof -
    define q where "q = (p - 1) div d"
    have q0: "0 \<le> q" "q < p" using parent_nonneg[OF d that(2)] parent_lt[OF d that(2)] q_def by auto
    then have yq: "ys ! nat q = xs ! nat q" using yo p0 by simp
    have pq: "xs ! nat p \<le> xs ! nat q"
      using inv that(2) p0 i unfolding up_except_def q_def by simp
    show ?thesis
    proof (cases "j = i")
      case True
      then show ?thesis using yi yq pq q_def by simp
    next
      case False
      have "j \<noteq> p" using that(1) pj0 by auto
      then have "ys ! nat j = xs ! nat j" using yo False j by simp
      moreover have "xs ! nat j \<le> xs ! nat p" using old1[OF False] that(1) by simp
      ultimately show ?thesis using yq pq q_def by simp
    qed
  qed
  show "(j \<noteq> p \<longrightarrow> ys ! nat j \<le> ys ! nat ((j - 1) div d)) \<and>
        ((j - 1) div d = p \<and> 1 \<le> p \<longrightarrow> ys ! nat j \<le> ys ! nat ((p - 1) div d))"
    using part1 part2 pj_def by blast
qed

lemma heap_from_imp_down_except:
  assumes d: "0 < d" and h: "heap_from d 0 n xs"
  shows "down_except d 0 n i xs"
  unfolding down_except_def
proof (intro allI impI conjI)
  fix j assume j: "1 \<le> j \<and> j < n \<and> 0 \<le> (j - 1) div d"
  then show "xs ! nat j \<le> xs ! nat ((j - 1) div d)" using h unfolding heap_from_def by blast
next
  fix j assume j: "1 \<le> j \<and> j < n \<and> 0 \<le> (j - 1) div d"
    and a: "(j - 1) div d = i \<and> 1 \<le> i \<and> 0 \<le> (i - 1) div d"
  have "i < j" using parent_lt[OF d, of j] j a by simp
  then have "xs ! nat i \<le> xs ! nat ((i - 1) div d)" using h a j unfolding heap_from_def by simp
  moreover have "xs ! nat j \<le> xs ! nat i" using h a j unfolding heap_from_def by blast
  ultimately show "xs ! nat j \<le> xs ! nat ((i - 1) div d)" by simp
qed

lemma sift_up_total:
  assumes "children self = d" "0 < d" "0 \<le> i" "i < int (length (heap self))"
  shows "\<exists>hp'. sift_up self i key = (Inr (), self\<lparr>heap := hp'\<rparr>)
           \<and> length hp' = length (heap self) \<and> mset hp' = mset (heap self)
           \<and> (n \<le> int (length (heap self)) \<and> i < n \<and> heap self ! nat i = key
                \<and> up_except d n i (heap self) \<longrightarrow> heap_from d 0 n hp')"
  using assms
proof (induction self i key rule: sift_up.induct)
  case (1 self index key)
  note d = "1.prems"(1,2) and ib = "1.prems"(3,4)
  define hp where "hp = heap self"
  define p where "p = (index - 1) div d"
  have pp: "parent self index = p" by (simp add: parent_def d p_def)
  show ?case
  proof (cases "index > 0")
    case False
    then have "sift_up self index key = (Inr (), self\<lparr>heap := hp\<rparr>)"
      by (subst sift_up.simps) (simp add: hp_def)
    moreover have "heap_from d 0 n hp" if "up_except d n index hp"
      using that False by (intro up_except_done[of d n index]) auto
    ultimately show ?thesis unfolding hp_def by (intro exI[of _ "heap self"]) simp
  next
    case True
    then have i1: "1 \<le> index" by simp
    have p0: "0 \<le> p" "p < index" using parent_nonneg[OF d(2) i1] parent_lt[OF d(2) i1] p_def by auto
    have pl: "p < int (length hp)" using p0 ib by (simp add: hp_def)
    have gp: "py_get hp p = Some (hp ! nat p)" using p0(1) pl by (rule py_get_nonneg)
    show ?thesis
    proof (cases "key > hp ! nat p")
      case False
      then have "sift_up self index key = (Inr (), self\<lparr>heap := hp\<rparr>)"
        using True gp pp by (subst sift_up.simps) (simp add: hp_def)
      moreover have "heap_from d 0 n hp" if "up_except d n index hp" "hp ! nat index = key"
        using that False by (intro up_except_done[of d n index]) (auto simp: p_def)
      ultimately show ?thesis unfolding hp_def by (intro exI[of _ "heap self"]) simp
    next
      case gt: True
      define hp1 where "hp1 = hp[nat index := hp ! nat p, nat p := hp ! nat index]"
      have il: "index < int (length hp)" using ib by (simp add: hp_def)
      have sw: "swap hp index p = Inr hp1"
        unfolding hp1_def using ib(1) il p0(1) pl by (rule swap_nonneg)
      have fr: "length hp1 = length hp" "mset hp1 = mset hp"
        unfolding hp1_def using swapped_frame(1,2)[OF ib(1) il p0(1) pl] by auto
      have nth: "hp1 ! nat index = hp ! nat p" "hp1 ! nat p = hp ! nat index"
        "\<forall>j. 0 \<le> j \<longrightarrow> j \<noteq> index \<longrightarrow> j \<noteq> p \<longrightarrow> hp1 ! nat j = hp ! nat j"
        unfolding hp1_def using swapped_nth[OF ib(1) il p0(1) pl] p0 by auto
      define self1 where "self1 = self\<lparr>heap := hp1\<rparr>"
      have s1: "children self1 = d" "p < int (length (heap self1))"
        using d pl fr by (simp_all add: self1_def)
      have gp': "py_get (heap self) (parent self index) = Some (hp ! nat p)"
        using gp pp by (simp add: hp_def)
      have sw': "swap (heap self) index (parent self index) = Inr hp1"
        using sw pp by (simp add: hp_def)
      from "1.IH"[OF True gp' gt sw' _ d(2) _ _] s1 p0 pp
      obtain hp' where r: "sift_up self1 p key = (Inr (), self1\<lparr>heap := hp'\<rparr>)"
        "length hp' = length hp1" "mset hp' = mset hp1"
        "n \<le> int (length hp1) \<and> p < n \<and> hp1 ! nat p = key \<and> up_except d n p hp1
           \<longrightarrow> heap_from d 0 n hp'"
        by (auto simp: self1_def)
      have eq: "sift_up self index key = sift_up self1 p key"
        using True gp' gt sw' pp by (subst sift_up.simps) (simp add: self1_def)
      have inv: "heap_from d 0 n hp'"
        if a: "n \<le> int (length hp)" "index < n" "hp ! nat index = key" "up_except d n index hp"
      proof -
        have "hp ! nat p < hp ! nat index" using gt a(3) by simp
        then have "up_except d n p hp1"
          using up_except_swap[OF d(2) i1 a(2) p_def a(4) _ nth(2) nth(1) nth(3)] by simp
        then show ?thesis using r(4) a fr nth p0 by simp
      qed
      show ?thesis using eq r fr inv
        by (intro exI[of _ hp']) (simp add: self1_def hp_def)
    qed
  qed
qed

lemma heap_from_update_up_except:
  assumes d: "0 < d" and h: "heap_from d 0 n xs" and i: "0 \<le> i" "i < n"
    and n: "n \<le> int (length xs)" and k: "xs ! nat i \<le> key"
  shows "up_except d n i (xs[nat i := key])"
  unfolding up_except_def
proof (intro allI impI)
  define ys where "ys = xs[nat i := key]"
  have yi: "ys ! nat i = key" using i n by (simp add: ys_def)
  have yo: "ys ! nat j = xs ! nat j" if "0 \<le> j" "j \<noteq> i" for j
    using that i by (simp add: ys_def)
  have old: "xs ! nat j \<le> xs ! nat ((j - 1) div d)" if "1 \<le> j" "j < n" for j
    using h that parent_nonneg[OF d that(1)] unfolding heap_from_def by simp
  fix j assume j: "1 \<le> j \<and> j < n"
  define pj where "pj = (j - 1) div d"
  have pj0: "0 \<le> pj" "pj < j"
    using parent_nonneg[OF d, of j] parent_lt[OF d, of j] j pj_def by auto
  have a: "ys ! nat j \<le> ys ! nat pj" if "j \<noteq> i"
  proof (cases "pj = i")
    case True
    then show ?thesis using yo[of j] that j yi old[of j] k pj_def by simp
  next
    case False
    then show ?thesis using yo[of j] yo[of pj] that j pj0 old[of j] pj_def by simp
  qed
  have b: "ys ! nat j \<le> ys ! nat ((i - 1) div d)" if "pj = i" "1 \<le> i"
  proof -
    define q where "q = (i - 1) div d"
    have q0: "0 \<le> q" "q < i" using parent_nonneg[OF d that(2)] parent_lt[OF d that(2)] q_def by auto
    have "ys ! nat j = xs ! nat j" using yo[of j] j that(1) pj0 by simp
    moreover have "ys ! nat q = xs ! nat q" using yo[of q] q0 by simp
    moreover have "xs ! nat j \<le> xs ! nat i" using old[of j] j that(1) pj_def by simp
    moreover have "xs ! nat i \<le> xs ! nat q" using old[of i] that(2) i q_def by simp
    ultimately show ?thesis using q_def by simp
  qed
  show "(j \<noteq> i \<longrightarrow> xs[nat i := key] ! nat j \<le> xs[nat i := key] ! nat ((j - 1) div d)) \<and>
        ((j - 1) div d = i \<and> 1 \<le> i \<longrightarrow>
           xs[nat i := key] ! nat j \<le> xs[nat i := key] ! nat ((i - 1) div d))"
    using a b unfolding ys_def pj_def by blast
qed

lemma heap_from_append_up_except:
  assumes d: "0 < d" and h: "heap_from d 0 n xs" and n: "n = int (length xs)"
  shows "up_except d (n + 1) n (xs @ [key])"
  unfolding up_except_def
proof (intro allI impI)
  fix j assume j: "1 \<le> j \<and> j < n + 1"
  define pj where "pj = (j - 1) div d"
  have pj0: "0 \<le> pj" "pj < j"
    using parent_nonneg[OF d, of j] parent_lt[OF d, of j] j pj_def by auto
  have a: "(xs @ [key]) ! nat j \<le> (xs @ [key]) ! nat pj" if "j \<noteq> n"
  proof -
    have jn: "j < n" using that j by simp
    then have "nat j < length xs" "nat pj < length xs" using n pj0 j by linarith+
    then have "(xs @ [key]) ! nat j = xs ! nat j" "(xs @ [key]) ! nat pj = xs ! nat pj"
      by (simp_all add: nth_append)
    moreover have "xs ! nat j \<le> xs ! nat pj"
      using h j jn pj0 unfolding heap_from_def pj_def by simp
    ultimately show ?thesis by simp
  qed
  have b: "pj \<noteq> n" using pj0 j by simp
  show "(j \<noteq> n \<longrightarrow> (xs @ [key]) ! nat j \<le> (xs @ [key]) ! nat ((j - 1) div d)) \<and>
        ((j - 1) div d = n \<and> 1 \<le> n \<longrightarrow>
           (xs @ [key]) ! nat j \<le> (xs @ [key]) ! nat ((n - 1) div d))"
    using a b unfolding pj_def by blast
qed

subsection \<open>Deleting at a position\<close>

lemma delete_key_loop_total:
  assumes "children self = d" "0 < d" "heap_size self = n" "n \<le> int (length (heap self))"
    "0 \<le> i"
  shows "\<exists>hp' i'. delete_key_loop self i = (Inr i', self\<lparr>heap := hp'\<rparr>) \<and> 0 \<le> i'
           \<and> length hp' = length (heap self) \<and> mset hp' = mset (heap self)
           \<and> (up_except d n i (heap self) \<longrightarrow> heap_from d 0 n hp')
           \<and> (\<not> (1 \<le> i \<and> i < n \<and> heap self ! nat ((i - 1) div d) < heap self ! nat i)
                \<longrightarrow> i' = i \<and> hp' = heap self)"
  using assms
proof (induction self i rule: delete_key_loop.induct)
  case (1 self key)
  note d = "1.prems"(1,2) and n = "1.prems"(3,4) and k0 = "1.prems"(5)
  define hp where "hp = heap self"
  define p where "p = (key - 1) div d"
  have pp: "parent self key = p" by (simp add: parent_def d p_def)
  show ?case
  proof (cases "1 \<le> key \<and> key < n \<and> hp ! nat p < hp ! nat key")
    case False
    have "delete_key_loop self key = (Inr key, self\<lparr>heap := hp\<rparr>)"
    proof (cases "1 \<le> key \<and> key < n")
      case False
      then show ?thesis using n(1) by (subst delete_key_loop.simps) (auto simp: hp_def)
    next
      case True
      then have p0: "0 \<le> p" "p < key"
        using parent_nonneg[OF d(2), of key] parent_lt[OF d(2), of key] p_def by auto
      have "py_get hp p = Some (hp ! nat p)" using p0 True n by (intro py_get_nonneg) (auto simp: hp_def)
      moreover have "py_get hp key = Some (hp ! nat key)"
        using True n by (intro py_get_nonneg) (auto simp: hp_def)
      ultimately show ?thesis using True False n(1) pp
        by (subst delete_key_loop.simps) (simp add: hp_def)
    qed
    moreover have "heap_from d 0 n hp" if "up_except d n key hp"
      using that False by (intro up_except_done[of d n key]) (auto simp: p_def)
    ultimately show ?thesis using False k0 unfolding hp_def p_def
      by (intro exI[of _ "heap self"] exI[of _ key]) simp
  next
    case True
    then have k1: "1 \<le> key" and kn: "key < n" and lt: "hp ! nat p < hp ! nat key" by auto
    have p0: "0 \<le> p" "p < key"
      using parent_nonneg[OF d(2) k1] parent_lt[OF d(2) k1] p_def by auto
    have kl: "key < int (length hp)" and pl: "p < int (length hp)"
      using kn p0 n by (auto simp: hp_def)
    have gp: "py_get (heap self) (parent self key) = Some (hp ! nat p)"
      using py_get_nonneg[OF p0(1) pl] pp by (simp add: hp_def)
    have gk: "py_get (heap self) key = Some (hp ! nat key)"
      using py_get_nonneg[OF k0 kl] by (simp add: hp_def)
    define hp1 where "hp1 = hp[nat key := hp ! nat p, nat p := hp ! nat key]"
    have sw: "swap (heap self) key (parent self key) = Inr hp1"
      using swap_nonneg[OF k0 kl p0(1) pl] pp by (simp add: hp_def hp1_def)
    have fr: "length hp1 = length hp" "mset hp1 = mset hp"
      unfolding hp1_def using swapped_frame(1,2)[OF k0 kl p0(1) pl] by auto
    have nth: "hp1 ! nat key = hp ! nat p" "hp1 ! nat p = hp ! nat key"
      "\<forall>j. 0 \<le> j \<longrightarrow> j \<noteq> key \<longrightarrow> j \<noteq> p \<longrightarrow> hp1 ! nat j = hp ! nat j"
      unfolding hp1_def using swapped_nth[OF k0 kl p0(1) pl] p0 by auto
    define self1 where "self1 = self\<lparr>heap := hp1\<rparr>"
    have s1: "children self1 = d" "heap_size self1 = n" "n \<le> int (length (heap self1))"
      using d n fr by (simp_all add: self1_def hp_def)
    have c: "1 \<le> key \<and> key < heap_size self" using k1 kn n by simp
    from "1.IH"[OF c gp gk lt sw _ d(2) _ _ _] s1 p0 pp
    obtain hp' i' where r: "delete_key_loop self1 p = (Inr i', self1\<lparr>heap := hp'\<rparr>)" "0 \<le> i'"
      "length hp' = length hp1" "mset hp' = mset hp1"
      "up_except d n p hp1 \<longrightarrow> heap_from d 0 n hp'"
      by (auto simp: self1_def)
    have eq: "delete_key_loop self key = delete_key_loop self1 p"
      using c gp gk lt sw pp by (subst delete_key_loop.simps) (simp add: self1_def)
    have inv: "heap_from d 0 n hp'" if "up_except d n key hp"
      using up_except_swap[OF d(2) k1 kn p_def that lt nth(2) nth(1) nth(3)] r(5) by simp
    show ?thesis using eq r fr inv True
      by (intro exI[of _ hp'] exI[of _ i']) (simp add: self1_def hp_def p_def)
  qed
qed

lemma delete_key_spec:
  assumes d: "children self = d" "0 < d" and n: "heap_size self = n" "n = int (length (heap self))"
    and k: "0 \<le> key" "key < n"
  shows "\<exists>hp'. delete_key self key = (Inr (), self\<lparr>heap := hp', heap_size := n - 1\<rparr>)
           \<and> int (length hp') = n - 1
           \<and> mset hp' = mset (heap self) - {#heap self ! nat key#}
           \<and> (heap_from d 0 n (heap self) \<longrightarrow> heap_from d 0 (n - 1) hp')"
proof -
  define hp where "hp = heap self"
  define hp1 where "hp1 = hp[nat key := hp ! nat (n - 1)]"
  define ys where "ys = butlast hp1"
  define self1 where "self1 = self\<lparr>heap := ys, heap_size := heap_size self - 1\<rparr>"
  have nl: "n = int (length hp)" using n by (simp add: hp_def)
  have kl: "key < int (length hp)" using k nl by simp
  have gl: "py_get hp (n - 1) = Some (hp ! nat (n - 1))" using k nl by (intro py_get_nonneg) auto
  have st: "py_set hp key (hp ! nat (n - 1)) = Some hp1"
    unfolding hp1_def using k(1) kl by (rule py_set_nonneg)
  have "hp1 \<noteq> []" using k nl by (auto simp: hp1_def)
  then have pp: "py_pop hp1 = Some ys" by (simp add: py_pop_def ys_def)
  have ys: "int (length ys) = n - 1" "mset ys = mset hp - {#hp ! nat key#}"
    using replace_last(1,4)[OF k nl] by (simp_all add: ys_def hp1_def)
  have s1: "children self1 = d" "heap_size self1 = n - 1" "n - 1 \<le> int (length (heap self1))"
    "heap self1 = ys"
    using d n ys by (simp_all add: self1_def)
  from delete_key_loop_total[OF s1(1) d(2) s1(2,3) k(1)] s1(4)
  obtain hp2 i' where l: "delete_key_loop self1 key = (Inr i', self1\<lparr>heap := hp2\<rparr>)" "0 \<le> i'"
    "length hp2 = length ys" "mset hp2 = mset ys"
    "up_except d (n - 1) key ys \<longrightarrow> heap_from d 0 (n - 1) hp2"
    "\<not> (1 \<le> key \<and> key < n - 1 \<and> ys ! nat ((key - 1) div d) < ys ! nat key)
       \<longrightarrow> i' = key \<and> hp2 = ys"
    by auto
  define self2 where "self2 = self1\<lparr>heap := hp2\<rparr>"
  have s2: "children self2 = d" "heap_size self2 = n - 1" "n - 1 \<le> int (length hp2)"
    using s1 l(3) ys by (simp_all add: self2_def)
  from max_heapify_total[OF s2(1) d(2) s2(2,3) l(2), of 0]
  obtain hp3 where h: "max_heapify self2 hp2 i' = (Inr (), hp3)" "length hp3 = length hp2"
    "mset hp3 = mset hp2" "down_except d 0 (n - 1) i' hp2 \<longrightarrow> heap_from d 0 (n - 1) hp3"
    by blast
  have ex: "delete_key self key = (Inr (), self2\<lparr>heap := hp3\<rparr>)"
    using k n(1) gl st pp l(1)[unfolded self1_def] h(1)[unfolded self2_def self1_def]
    by (simp add: delete_key_def hp_def[symmetric] self1_def self2_def Let_def)
  have inv: "heap_from d 0 (n - 1) hp3" if "heap_from d 0 n hp"
  proof -
    have be: "both_except d (n - 1) key ys"
      using heap_from_replace_last[OF d(2) that k nl] by (simp add: ys_def hp1_def)
    have "down_except d 0 (n - 1) i' hp2"
    proof (cases "1 \<le> key \<and> key < n - 1 \<and> ys ! nat ((key - 1) div d) < ys ! nat key")
      case True
      then have "up_except d (n - 1) key ys" using both_except_up[OF be] by simp
      then have "heap_from d 0 (n - 1) hp2" using l(5) by simp
      then show ?thesis by (rule heap_from_imp_down_except[OF d(2)])
    next
      case False
      then have e: "i' = key" "hp2 = ys" using l(6) by simp_all
      have "key = 0 \<or> n - 1 \<le> key \<or> ys ! nat key \<le> ys ! nat ((key - 1) div d)"
        using False k(1) by auto
      then show ?thesis unfolding e by (rule both_except_down[OF be])
    qed
    then show ?thesis using h(4) by simp
  qed
  show ?thesis
    using ex ys h(2,3) l(3,4) inv n
    by (intro exI[of _ hp3]) (simp add: self2_def self1_def hp_def)
qed

text \<open>
  When \<^verbatim>\<open>delete_key\<close> raises and when it returns, for any size and list.
\<close>

lemma delete_key_outside:
  "\<not> (0 \<le> key \<and> key < heap_size self) \<Longrightarrow> delete_key self key = (Inl IndexError, self)"
  by (auto simp: delete_key_def)

lemma delete_key_short:
  assumes "int (length (heap self)) < heap_size self"
  shows "delete_key self key = (Inl IndexError, self)"
proof (cases "0 \<le> key \<and> key < heap_size self")
  case False
  then show ?thesis by (rule delete_key_outside)
next
  case True
  have "py_get (heap self) (heap_size self - 1) = None"
    using assms by (simp add: py_get_def py_index_def)
  then show ?thesis using True by (simp add: delete_key_def)
qed

lemma delete_key_returns:
  assumes d: "children self = d" "0 < d" and n: "heap_size self = n" "n \<le> int (length (heap self))"
    and k: "0 \<le> key" "key < n"
  shows "fst (delete_key self key) = Inr ()"
proof -
  define hp where "hp = heap self"
  define hp1 where "hp1 = hp[nat key := hp ! nat (n - 1)]"
  define ys where "ys = butlast hp1"
  define self1 where "self1 = self\<lparr>heap := ys, heap_size := heap_size self - 1\<rparr>"
  have nl: "n \<le> int (length hp)" using n by (simp add: hp_def)
  have kl: "key < int (length hp)" using k nl by simp
  have gl: "py_get hp (n - 1) = Some (hp ! nat (n - 1))" using k nl by (intro py_get_nonneg) auto
  have st: "py_set hp key (hp ! nat (n - 1)) = Some hp1"
    unfolding hp1_def using k(1) kl by (rule py_set_nonneg)
  have "hp1 \<noteq> []" using k nl by (auto simp: hp1_def)
  then have pp: "py_pop hp1 = Some ys" by (simp add: py_pop_def ys_def)
  have "length ys = length hp - 1" by (simp add: ys_def hp1_def)
  then have ys: "n - 1 \<le> int (length ys)" using nl k by linarith
  have s1: "children self1 = d" "heap_size self1 = n - 1" "n - 1 \<le> int (length (heap self1))"
    "heap self1 = ys"
    using d n ys by (simp_all add: self1_def)
  from delete_key_loop_total[OF s1(1) d(2) s1(2,3) k(1)] s1(4)
  obtain hp2 i' where l: "delete_key_loop self1 key = (Inr i', self1\<lparr>heap := hp2\<rparr>)" "0 \<le> i'"
    "length hp2 = length ys"
    by auto
  define self2 where "self2 = self1\<lparr>heap := hp2\<rparr>"
  have s2: "children self2 = d" "heap_size self2 = n - 1" "n - 1 \<le> int (length hp2)"
    using s1 l(3) ys by (simp_all add: self2_def)
  from max_heapify_total[OF s2(1) d(2) s2(2,3) l(2), of 0]
  obtain hp3 where h: "max_heapify self2 hp2 i' = (Inr (), hp3)" by blast
  have "delete_key self key = (Inr (), self2\<lparr>heap := hp3\<rparr>)"
    using k n(1) gl st pp l(1)[unfolded self1_def] h(1)[unfolded self2_def self1_def]
    by (simp add: delete_key_def hp_def[symmetric] self1_def self2_def Let_def)
  then show ?thesis by simp
qed

subsection \<open>The loop of heap sort\<close>

lemma mset_take_of_drop:
  assumes "mset xs = mset ys" "drop k xs = drop k ys"
  shows "mset (take k xs) = mset (take k ys)"
proof -
  have "mset (take k xs) + mset (drop k xs) = mset xs"
    by (metis append_take_drop_id mset_append)
  moreover have "mset (take k ys) + mset (drop k ys) = mset ys"
    by (metis append_take_drop_id mset_append)
  ultimately show ?thesis using assms by (metis add_right_cancel)
qed

lemma sort_inv_step:
  assumes d: "0 < d" and k: "0 < k" "Suc k \<le> length xs" and inv: "sort_inv d (Suc k) xs"
    and x1: "xs1 = xs[0 := xs ! k, k := xs ! 0]"
    and l2: "length xs2 = length xs1" and m2: "mset xs2 = mset xs1"
    and d2: "drop k xs2 = drop k xs1"
    and h2: "down_except d 0 (int k) 0 xs1 \<longrightarrow> heap_from d 0 (int k) xs2"
  shows "sort_inv d k xs2"
proof -
  have hf: "heap_from d 0 (int (Suc k)) xs" and so: "sorted (drop (Suc k) xs)"
    and le: "\<forall>x\<in>set (take (Suc k) xs). \<forall>y\<in>set (drop (Suc k) xs). x \<le> y"
    using inv unfolding sort_inv_def by auto
  have kl: "k < length xs" using k by simp
  have root: "x \<le> xs ! 0" if "x \<in> set (take (Suc k) xs)" for x
  proof -
    from that obtain j where j: "j < Suc k" "x = xs ! j"
      using kl by (auto simp: in_set_conv_nth)
    then show ?thesis using heap_root_max[OF d hf, of "int j"] by simp
  qed
  have dk: "drop k xs1 = xs ! 0 # drop (Suc k) xs"
  proof -
    have "k < length xs1" using kl by (simp add: x1)
    then have "drop k xs1 = xs1 ! k # drop (Suc k) xs1"
      by (rule Cons_nth_drop_Suc[symmetric])
    moreover have "xs1 ! k = xs ! 0" using kl by (simp add: x1)
    moreover have "drop (Suc k) xs1 = drop (Suc k) xs" by (simp add: x1)
    ultimately show ?thesis by simp
  qed
  have tk: "set (take k xs1) \<subseteq> set (take (Suc k) xs)"
  proof -
    have "take k xs1 = (take k xs)[0 := xs ! k]"
      by (simp add: x1 take_update_swap list_update_beyond)
    then have "set (take k xs1) \<subseteq> insert (xs ! k) (set (take k xs))"
      by (simp add: set_update_subset_insert)
    moreover have "set (take (Suc k) xs) = insert (xs ! k) (set (take k xs))"
      using kl by (simp add: take_Suc_conv_app_nth)
    ultimately show ?thesis by simp
  qed
  have st: "set (take k xs2) = set (take k xs1)"
    using mset_take_of_drop[OF m2 d2] by (rule mset_eq_setD)
  have a: "heap_from d 0 (int k) xs2"
  proof -
    have "down_except d 0 (int k) 0 xs1"
      unfolding down_except_def
    proof (intro allI impI conjI)
      fix j assume j: "1 \<le> j \<and> j < int k \<and> 0 \<le> (j - 1) div d" and ne: "(j - 1) div d \<noteq> 0"
      define pj where "pj = (j - 1) div d"
      have pj: "0 < pj" "pj < j" using j ne parent_lt[OF d, of j] by (simp_all add: pj_def)
      have "nat j \<noteq> 0" "nat j \<noteq> k" "nat pj \<noteq> 0" "nat pj \<noteq> k"
        using j pj by linarith+
      then have "xs1 ! nat j = xs ! nat j" "xs1 ! nat pj = xs ! nat pj"
        by (simp_all add: x1)
      moreover have "xs ! nat j \<le> xs ! nat pj"
        using hf j pj unfolding heap_from_def pj_def by simp
      ultimately show "xs1 ! nat j \<le> xs1 ! nat ((j - 1) div d)" by (simp add: pj_def)
    next
      fix j assume "(j - 1) div d = 0 \<and> (1::int) \<le> 0 \<and> 0 \<le> (0 - 1) div d"
      then show "xs1 ! nat j \<le> xs1 ! nat ((0 - 1) div d)" by simp
    qed
    then show ?thesis using h2 by simp
  qed
  have b: "sorted (drop k xs2)"
  proof -
    have "xs ! 0 \<in> set (take (Suc k) xs)" using kl by (cases xs) auto
    then have "\<forall>y\<in>set (drop (Suc k) xs). xs ! 0 \<le> y" using le by blast
    then show ?thesis using d2 dk so by simp
  qed
  have c: "\<forall>x\<in>set (take k xs2). \<forall>y\<in>set (drop k xs2). x \<le> y"
  proof (intro ballI)
    fix x y assume x: "x \<in> set (take k xs2)" and y: "y \<in> set (drop k xs2)"
    have x': "x \<in> set (take (Suc k) xs)" using x st tk by auto
    have "y = xs ! 0 \<or> y \<in> set (drop (Suc k) xs)" using y d2 dk by auto
    then show "x \<le> y" using root[OF x'] le x' by auto
  qed
  show ?thesis unfolding sort_inv_def using a b c by simp
qed

lemma sort_inv_done:
  assumes "sort_inv d (Suc 0) xs"
  shows "sorted xs"
proof -
  have "sorted (take (Suc 0) xs @ drop (Suc 0) xs)"
    unfolding sorted_append using assms unfolding sort_inv_def by (cases xs) auto
  then show ?thesis by simp
qed

lemma heap_sort_loop_spec:
  assumes "children self = d" "0 < d" "heap_size self = int (Suc k)"
    "Suc k \<le> length (heap self)"
  shows "\<exists>self'. heap_sort_loop self (range_down (int k) 0) = (Inr (), self')
           \<and> children self' = d \<and> length (heap self') = length (heap self)
           \<and> mset (heap self') = mset (heap self)
           \<and> (sort_inv d (Suc k) (heap self) \<longrightarrow> sorted (heap self'))"
  using assms
proof (induction k arbitrary: self)
  case 0
  have "heap_sort_loop self (range_down (int 0) 0) = (Inr (), self)"
    by (subst range_down.simps) simp
  then show ?case using "0.prems"(1) sort_inv_done[of d "heap self"]
    by (intro exI[of _ self]) simp
next
  case (Suc k)
  note d = Suc.prems(1,2) and n = Suc.prems(3,4)
  define hp where "hp = heap self"
  define i where "i = int (Suc k)"
  define hp1 where "hp1 = hp[0 := hp ! Suc k, Suc k := hp ! 0]"
  define self1 where "self1 = self\<lparr>heap := hp1, heap_size := heap_size self - 1\<rparr>"
  have rd: "range_down i 0 = i # range_down (int k) 0"
    by (subst range_down.simps) (simp add: i_def)
  have b: "(0::int) \<le> 0" "0 < int (length hp)" "0 \<le> i" "i < int (length hp)"
    using n by (auto simp: i_def hp_def)
  have ni: "nat i = Suc k" by (simp add: i_def)
  have sw: "swap hp 0 i = Inr hp1"
    using swap_nonneg[OF b(1) b(2) b(3) b(4)] ni by (simp add: hp1_def)
  have l1: "length hp1 = length hp" "mset hp1 = mset hp"
    using swapped_frame(1,2)[OF b(1) b(2) b(3) b(4), of hp] ni by (simp_all add: hp1_def)
  have s1: "children self1 = d" "heap_size self1 = i" "i \<le> int (length hp1)"
    using d n l1 by (simp_all add: self1_def i_def hp_def)
  from max_heapify_total[OF s1(1) d(2) s1(2,3) b(1), of 0]
  obtain hp2 where h: "max_heapify self1 hp1 0 = (Inr (), hp2)" "length hp2 = length hp1"
    "mset hp2 = mset hp1" "drop (nat i) hp2 = drop (nat i) hp1"
    "down_except d 0 i 0 hp1 \<longrightarrow> heap_from d 0 i hp2" by blast
  define self2 where "self2 = self1\<lparr>heap := hp2\<rparr>"
  have s2: "children self2 = d" "heap_size self2 = int (Suc k)" "Suc k \<le> length (heap self2)"
    using s1 h(2) l1 n by (simp_all add: self2_def i_def hp_def)
  from Suc.IH[OF s2(1) d(2) s2(2,3)]
  obtain self' where r: "heap_sort_loop self2 (range_down (int k) 0) = (Inr (), self')"
    "children self' = d" "length (heap self') = length hp2" "mset (heap self') = mset hp2"
    "sort_inv d (Suc k) hp2 \<longrightarrow> sorted (heap self')"
    by (auto simp: self2_def)
  have eq: "heap_sort_loop self (range_down i 0) = (Inr (), self')"
    using rd sw h(1)[unfolded self1_def] r(1)[unfolded self2_def self1_def]
    by (simp add: hp_def[symmetric] self1_def Let_def)
  have inv: "sorted (heap self')" if "sort_inv d (Suc (Suc k)) hp"
  proof -
    have "0 < Suc k" "Suc (Suc k) \<le> length hp" using n by (simp_all add: hp_def)
    moreover have "drop (Suc k) hp2 = drop (Suc k) hp1" using h(4) ni by simp
    moreover have "down_except d 0 (int (Suc k)) 0 hp1 \<longrightarrow> heap_from d 0 (int (Suc k)) hp2"
      using h(5) by (simp add: i_def)
    ultimately have "sort_inv d (Suc k) hp2"
      using sort_inv_step[OF d(2) _ _ that hp1_def h(2,3)] by blast
    then show ?thesis using r(5) by simp
  qed
  show ?case using eq[unfolded i_def] r(2,3,4) h(2,3) l1 inv
    by (intro exI[of _ self']) (simp add: hp_def)
qed

lemma heap_sort_spec:
  assumes "2 \<le> children self"
  shows "\<exists>self'. heap_sort self array = (Inr (), self')
           \<and> sorted (heap self') \<and> mset (heap self') = mset array
           \<and> heap_size self' = int (length array) \<and> children self' = children self"
proof -
  define d where "d = children self"
  define n where "n = int (length array)"
  define self0 where "self0 = self\<lparr>heap_size := n\<rparr>"
  have d0: "0 < d" using assms by (simp add: d_def)
  have s0: "children self0 = d" "2 \<le> d" "heap_size self0 = n" "0 \<le> n" "n \<le> int (length array)"
    using assms by (simp_all add: self0_def d_def n_def)
  from build_max_heap_spec[OF s0]
  obtain hp1 where b: "build_max_heap self0 array = (Inr (), self0\<lparr>heap := hp1\<rparr>)"
    "heap_from d 0 n hp1" "length hp1 = length array" "mset hp1 = mset array" by blast
  define self1 where "self1 = self0\<lparr>heap := hp1\<rparr>"
  have "\<exists>self'. heap_sort_loop self1 (range_down (n - 1) 0) = (Inr (), self')
          \<and> children self' = d \<and> mset (heap self') = mset hp1 \<and> sorted (heap self')"
  proof (cases "array = []")
    case True
    then have "n - 1 = - 1" "hp1 = []" using b(3) by (simp_all add: n_def)
    moreover have "heap_sort_loop self1 (range_down (- 1) 0) = (Inr (), self1)"
      by (subst range_down.simps) simp
    ultimately show ?thesis
      by (intro exI[of _ self1]) (simp add: self1_def self0_def d_def)
  next
    case False
    then obtain k where k: "length array = Suc k" by (cases array) auto
    have s1: "children self1 = d" "heap_size self1 = int (Suc k)" "Suc k \<le> length (heap self1)"
      using s0 b(3) k by (simp_all add: self1_def n_def)
    from heap_sort_loop_spec[OF s1(1) d0 s1(2,3)]
    obtain self' where r: "heap_sort_loop self1 (range_down (int k) 0) = (Inr (), self')"
      "children self' = d" "mset (heap self') = mset hp1"
      "sort_inv d (Suc k) hp1 \<longrightarrow> sorted (heap self')"
      by (auto simp: self1_def)
    have "sort_inv d (Suc k) hp1"
      unfolding sort_inv_def using b(2,3) k by (simp add: n_def)
    then have "sorted (heap self')" using r(4) by simp
    moreover have "n - 1 = int k" using k by (simp add: n_def)
    ultimately show ?thesis using r by (intro exI[of _ self']) simp
  qed
  then obtain self' where r: "heap_sort_loop self1 (range_down (n - 1) 0) = (Inr (), self')"
    "children self' = d" "mset (heap self') = mset hp1" "sorted (heap self')" by blast
  have "heap_sort self array = (Inr (), self'\<lparr>heap_size := n\<rparr>)"
    using b(1)[unfolded self0_def] r(1)[unfolded self1_def self0_def]
    by (simp add: heap_sort_def Let_def n_def[symmetric])
  then show ?thesis using r b(4)
    by (intro exI[of _ "self'\<lparr>heap_size := n\<rparr>"]) (simp add: n_def d_def)
qed

section \<open>The index relations\<close>

text \<open>
  Claim C9: for a branching factor \<open>d \<ge> 2\<close>, a parent index \<open>p \<ge> 0\<close> and \<open>k\<close> in
  \<open>[1, d]\<close>, the parent of the k-th child of \<open>p\<close> is \<open>p\<close>.
\<close>

theorem parent_k_child:
  assumes "2 \<le> children self" "0 \<le> p" "1 \<le> k" "k \<le> children self"
  shows "parent self (k_child self k p) = p"
proof -
  have "(children self * p + (k - 1)) div children self = p"
    using assms by simp
  then show ?thesis by (simp add: parent_def k_child_def algebra_simps)
qed

theorem parent_k_child_witness:
  "parent \<lparr>heap = [] :: int list, heap_size = 0, children = 3\<rparr>
     (k_child \<lparr>heap = [] :: int list, heap_size = 0, children = 3\<rparr> 2 4) = 4"
  by (rule parent_k_child) simp_all

text \<open>
  Claim C10: for a branching factor \<open>d \<ge> 2\<close>, the parent of the root index 0 is
  \<open>-1\<close>, the floor of \<open>-1 / d\<close>.
\<close>

theorem parent_root:
  assumes "2 \<le> children self"
  shows "parent self 0 = - 1"
  using assms by (simp add: parent_def zdiv_zminus1_eq_if)

theorem parent_root_witness:
  "parent \<lparr>heap = [] :: int list, heap_size = 0, children = 2\<rparr> 0 = - 1"
  by (rule parent_root) simp

section \<open>Building\<close>

text \<open>
  Claim C1: after \<^verbatim>\<open>build_max_heap(data)\<close> the tracked size should be the length of
  \<^verbatim>\<open>data\<close>, as the class documents \<^verbatim>\<open>_heap_size\<close> (``the length of the heap list'')
  and as \<^verbatim>\<open>heap_sort\<close> arranges when it adopts a list. The code does not do so: on the
  heap that \<^verbatim>\<open>DAryHeap(0, 2)\<close> constructs, \<^verbatim>\<open>build_max_heap([1, 2, 3])\<close> returns with
  the size still 0, no position sifted and the list left as \<open>[1, 2, 3]\<close>, where
  \<^verbatim>\<open>heap_sort\<close> on the same heap and list ends with the size 3.
\<close>

theorem build_max_heap_size_failing_input:
  "(init 0 2 :: error + int d_ary_heap) = Inr \<lparr>heap = [], heap_size = 0, children = 2\<rparr>
   \<and> build_max_heap \<lparr>heap = [], heap_size = 0, children = 2\<rparr> [1, 2, 3 :: int]
       = (Inr (), \<lparr>heap = [1, 2, 3], heap_size = 0, children = 2\<rparr>)
   \<and> heap_size (snd (build_max_heap \<lparr>heap = [], heap_size = 0, children = 2\<rparr> [1, 2, 3 :: int])) \<noteq> int (length [1, 2, 3 :: int])
   \<and> heap_size (snd (build_max_heap \<lparr>heap = [], heap_size = 0, children = 2\<rparr> [1, 2, 3 :: int]))
       \<noteq> int (length (heap (snd (build_max_heap \<lparr>heap = [], heap_size = 0, children = 2\<rparr> [1, 2, 3 :: int]))))
   \<and> heap_size (snd (heap_sort \<lparr>heap = [], heap_size = 0, children = 2\<rparr> [1, 2, 3 :: int])) = int (length [1, 2, 3 :: int])"
  by code_simp

text \<open>
  Claim C2, as the code has it: \<^verbatim>\<open>build_max_heap\<close> stores \<^verbatim>\<open>data\<close> and then calls
  \<^verbatim>\<open>max_heapify\<close> at the indices \<open>size div 2 - 1, \<dots>, 0\<close>, in that order, each call on
  the list the previous one left, and stops at the first call that raises; the divisor
  is the constant 2, whatever the branching factor. When the branching factor is
  positive and the size is at most the length of \<^verbatim>\<open>data\<close> no call raises, so every index
  of the range is sifted. For \<open>d = 2\<close> the range is \<open>size div d - 1, \<dots>, 0\<close>.
\<close>

theorem build_max_heap_indices:
  "build_max_heap self data =
     (case foldl (\<lambda>(r, hp) i. case r of Inl e \<Rightarrow> (Inl e, hp) | Inr u \<Rightarrow> max_heapify self hp i)
             (Inr (), data) (rev [0..heap_size self div 2 - 1]) of
        (r, hp) \<Rightarrow> (r, self\<lparr>heap := hp\<rparr>))
   \<and> (0 < children self \<and> heap_size self \<le> int (length data) \<longrightarrow>
        build_max_heap self data =
          (Inr (), self\<lparr>heap := foldl (\<lambda>hp i. snd (max_heapify self hp i)) data
                                  (rev [0..heap_size self div 2 - 1])\<rparr>))
   \<and> (children self = 2 \<longrightarrow>
        build_max_heap self data =
          (case foldl (\<lambda>(r, hp) i. case r of Inl e \<Rightarrow> (Inl e, hp) | Inr u \<Rightarrow> max_heapify self hp i)
                  (Inr (), data) (rev [0..heap_size self div children self - 1]) of
             (r, hp) \<Rightarrow> (r, self\<lparr>heap := hp\<rparr>)))"
proof -
  define F where "F = (\<lambda>(r :: error + unit, hp) i.
    case r of Inl e \<Rightarrow> (Inl e, hp) | Inr u \<Rightarrow> max_heapify self hp i)"
  define js where "js = rev [0..heap_size self div 2 - 1]"
  have "build_max_heap self data = build_loop (self\<lparr>heap := data\<rparr>) js"
    by (simp add: build_max_heap_def build_indices_def range_down_upto js_def)
  also have "\<dots> = (case foldl F (Inr (), data) js of (r, hp) \<Rightarrow> (r, self\<lparr>heap := hp\<rparr>))"
    using build_loop_foldl[of "self\<lparr>heap := data\<rparr>" self js]
    by (simp add: F_def split: prod.splits)
  finally have a: "build_max_heap self data
      = (case foldl F (Inr (), data) js of (r, hp) \<Rightarrow> (r, self\<lparr>heap := hp\<rparr>))" .
  have b: "build_max_heap self data
      = (Inr (), self\<lparr>heap := foldl (\<lambda>hp i. snd (max_heapify self hp i)) data js\<rparr>)"
    if "0 < children self" "heap_size self \<le> int (length data)"
  proof -
    have "\<forall>i\<in>set js. 0 \<le> i" by (simp add: js_def)
    from foldl_sift_total[OF refl that(1) refl that(2) this]
    show ?thesis using a by (simp add: F_def)
  qed
  show ?thesis using a b unfolding F_def js_def by auto
qed

theorem build_max_heap_indices_witness:
  "0 < children \<lparr>heap = [], heap_size = 6, children = 2\<rparr> \<and> heap_size \<lparr>heap = [], heap_size = 6, children = 2\<rparr> \<le> int (length [1, 2, 3, 4, 5, 6 :: int]) \<and> children \<lparr>heap = [], heap_size = 6, children = 2\<rparr> = 2
   \<and> build_max_heap \<lparr>heap = [], heap_size = 6, children = 2\<rparr> [1, 2, 3, 4, 5, 6 :: int]
       = (Inr (), \<lparr>heap = [], heap_size = 6, children = 2\<rparr>\<lparr>heap :=
            snd (max_heapify \<lparr>heap = [], heap_size = 6, children = 2\<rparr> (snd (max_heapify \<lparr>heap = [], heap_size = 6, children = 2\<rparr> (snd (max_heapify \<lparr>heap = [], heap_size = 6, children = 2\<rparr> [1, 2, 3, 4, 5, 6 :: int] 2)) 1)) 0)\<rparr>)
   \<and> heap (snd (build_max_heap \<lparr>heap = [], heap_size = 6, children = 2\<rparr> [1, 2, 3, 4, 5, 6 :: int])) = [6, 5, 3, 4, 2, 1]
   \<and> max_heapify \<lparr>heap = [], heap_size = 6, children = 2\<rparr> [1, 2, 3 :: int] 2 = (Inl IndexError, [1, 2, 3])
   \<and> build_max_heap \<lparr>heap = [], heap_size = 6, children = 2\<rparr> [1, 2, 3 :: int] = (Inl IndexError, \<lparr>heap = [], heap_size = 6, children = 2\<rparr>\<lparr>heap := [1, 2, 3]\<rparr>)"
proof -
  have a: "0 < children \<lparr>heap = [], heap_size = 6, children = 2\<rparr> \<and> heap_size \<lparr>heap = [], heap_size = 6, children = 2\<rparr> \<le> int (length [1, 2, 3, 4, 5, 6 :: int])" by simp
  have u: "rev [0..heap_size \<lparr>heap = [], heap_size = 6, children = 2\<rparr> div 2 - 1] = [2, 1, 0]" by (simp add: upto_rec1)
  have b: "build_max_heap \<lparr>heap = [], heap_size = 6, children = 2\<rparr> [1, 2, 3, 4, 5, 6 :: int]
       = (Inr (), \<lparr>heap = [], heap_size = 6, children = 2\<rparr>\<lparr>heap :=
            snd (max_heapify \<lparr>heap = [], heap_size = 6, children = 2\<rparr> (snd (max_heapify \<lparr>heap = [], heap_size = 6, children = 2\<rparr> (snd (max_heapify \<lparr>heap = [], heap_size = 6, children = 2\<rparr> [1, 2, 3, 4, 5, 6 :: int] 2)) 1)) 0)\<rparr>)"
    using build_max_heap_indices[of "\<lparr>heap = [], heap_size = 6, children = 2\<rparr>" "[1, 2, 3, 4, 5, 6 :: int]", THEN conjunct2, THEN conjunct1, rule_format, OF a]
    unfolding u by simp
  have c: "heap (snd (build_max_heap \<lparr>heap = [], heap_size = 6, children = 2\<rparr> [1, 2, 3, 4, 5, 6 :: int])) = [6, 5, 3, 4, 2, 1]" by code_simp
  have d: "max_heapify \<lparr>heap = [], heap_size = 6, children = 2\<rparr> [1, 2, 3 :: int] 2 = (Inl IndexError, [1, 2, 3])" by code_simp
  have e: "build_max_heap \<lparr>heap = [], heap_size = 6, children = 2\<rparr> [1, 2, 3 :: int] = (Inl IndexError, \<lparr>heap = [], heap_size = 6, children = 2\<rparr>\<lparr>heap := [1, 2, 3]\<rparr>)"
    using build_max_heap_indices[of "\<lparr>heap = [], heap_size = 6, children = 2\<rparr>" "[1, 2, 3 :: int]", THEN conjunct1]
    unfolding u by (simp add: d)
  show ?thesis using a b c d e by simp
qed

text \<open>
  Claim C2 as stated fails for \<open>d = 3\<close> and five keys: the code sifts down at 1 and
  then at 0, where \<open>size div d - 1 = 0\<close> names the root only. Sifting at the root
  alone would leave the key 5 below the key 2.
\<close>

theorem build_max_heap_indices_counterexample:
  "build_indices \<lparr>heap = [] :: int list, heap_size = 5, children = 3\<rparr>
     \<noteq> rev [0..heap_size \<lparr>heap = [] :: int list, heap_size = 5, children = 3\<rparr> div children \<lparr>heap = [] :: int list, heap_size = 5, children = 3\<rparr> - 1]
   \<and> build_indices \<lparr>heap = [] :: int list, heap_size = 5, children = 3\<rparr> = [1, 0]
   \<and> rev [0..heap_size \<lparr>heap = [] :: int list, heap_size = 5, children = 3\<rparr> div children \<lparr>heap = [] :: int list, heap_size = 5, children = 3\<rparr> - 1] = [0]
   \<and> heap (snd (build_max_heap \<lparr>heap = [] :: int list, heap_size = 5, children = 3\<rparr> [1, 2, 3, 4, 5]))
       \<noteq> heap (snd (build_loop (\<lparr>heap = [] :: int list, heap_size = 5, children = 3\<rparr>\<lparr>heap := [1, 2, 3, 4, 5]\<rparr>)
             (rev [0..heap_size \<lparr>heap = [] :: int list, heap_size = 5, children = 3\<rparr> div children \<lparr>heap = [] :: int list, heap_size = 5, children = 3\<rparr> - 1])))
   \<and> heap (snd (build_max_heap \<lparr>heap = [] :: int list, heap_size = 5, children = 3\<rparr> [1, 2, 3, 4, 5])) = [5, 2, 3, 4, 1]
   \<and> heap (snd (build_loop (\<lparr>heap = [] :: int list, heap_size = 5, children = 3\<rparr>\<lparr>heap := [1, 2, 3, 4, 5]\<rparr>)
             (rev [0..heap_size \<lparr>heap = [] :: int list, heap_size = 5, children = 3\<rparr> div children \<lparr>heap = [] :: int list, heap_size = 5, children = 3\<rparr> - 1]))) = [4, 2, 3, 1, 5]"
  by code_simp

text \<open>
  Claim C3: for a branching factor \<open>d \<ge> 2\<close> and a tracked size equal to \<^verbatim>\<open>len(data)\<close>,
  \<^verbatim>\<open>build_max_heap(data)\<close> returns without raising, the max-heap property holds over the
  whole list, the list is a rearrangement of \<^verbatim>\<open>data\<close>, and empty input gives the empty
  heap.
\<close>

theorem build_max_heap_invariant:
  assumes "2 \<le> children self" "heap_size self = int (length data)"
  shows "fst (build_max_heap self data) = Inr ()
    \<and> max_heap_property (children self) (heap_size self) (heap (snd (build_max_heap self data)))
    \<and> heap_size (snd (build_max_heap self data))
        = int (length (heap (snd (build_max_heap self data))))
    \<and> children (snd (build_max_heap self data)) = children self
    \<and> mset (heap (snd (build_max_heap self data))) = mset data
    \<and> (data = [] \<longrightarrow> heap (snd (build_max_heap self data)) = [])"
proof -
  have n: "0 \<le> heap_size self" "heap_size self \<le> int (length data)" using assms(2) by simp_all
  from build_max_heap_spec[OF refl assms(1) refl n]
  obtain hp' where h: "build_max_heap self data = (Inr (), self\<lparr>heap := hp'\<rparr>)"
    "heap_from (children self) 0 (heap_size self) hp'" "length hp' = length data"
    "mset hp' = mset data" by blast
  have "0 < children self" using assms(1) by simp
  then have "max_heap_property (children self) (heap_size self) hp'"
    using h(2) by (simp add: max_heap_property_iff)
  then show ?thesis using h assms(2) by auto
qed

theorem build_max_heap_invariant_witness:
  "2 \<le> children \<lparr>heap = [], heap_size = 5, children = 3\<rparr>
   \<and> heap_size \<lparr>heap = [], heap_size = 5, children = 3\<rparr> = int (length [1, 2, 3, 4, 5 :: int])
   \<and> fst (build_max_heap \<lparr>heap = [], heap_size = 5, children = 3\<rparr> [1, 2, 3, 4, 5 :: int]) = Inr ()
   \<and> max_heap_property 3 5
        (heap (snd (build_max_heap \<lparr>heap = [], heap_size = 5, children = 3\<rparr> [1, 2, 3, 4, 5 :: int])))"
  using build_max_heap_invariant [of "\<lparr>heap = [], heap_size = 5, children = 3\<rparr>" "[1, 2, 3, 4, 5 :: int]"]
  by simp

section \<open>Extraction\<close>

text \<open>
  Claim C4: on a heap whose size is the length of its list, \<^verbatim>\<open>extract_max\<close> raises
  \<^verbatim>\<open>HeapUnderflowError\<close> exactly when the size is 0, and then leaves the heap as it
  was. On a non-empty heap with the max-heap property it returns the maximum of the
  stored keys, the size drops by one and stays the length of the list, one occurrence
  of the maximum leaves the multiset of keys, and the max-heap property holds again.
\<close>

theorem extract_max_correct:
  assumes "2 \<le> children self" "heap_size self = int (length (heap self))"
  shows "(fst (extract_max self) = Inl HeapUnderflowError \<longleftrightarrow> heap_size self = 0)
    \<and> (heap_size self = 0 \<longrightarrow> snd (extract_max self) = self)
    \<and> (1 \<le> heap_size self \<and> max_heap_property (children self) (heap_size self) (heap self) \<longrightarrow>
         fst (extract_max self) = Inr (Max (set (heap self)))
       \<and> heap_size (snd (extract_max self)) = heap_size self - 1
       \<and> heap_size (snd (extract_max self)) = int (length (heap (snd (extract_max self))))
       \<and> children (snd (extract_max self)) = children self
       \<and> mset (heap (snd (extract_max self))) = mset (heap self) - {#Max (set (heap self))#}
       \<and> max_heap_property (children self) (heap_size (snd (extract_max self)))
            (heap (snd (extract_max self))))"
proof (cases "heap_size self = 0")
  case True
  then have "extract_max self = (Inl HeapUnderflowError, self)" by (simp add: extract_max_def)
  then show ?thesis using True by simp
next
  case False
  then have n1: "1 \<le> heap_size self" using assms(2) by linarith
  have d: "0 < children self" using assms(1) by simp
  from extract_max_spec[OF refl d refl assms(2) n1]
  obtain hp' where h: "extract_max self
      = (Inr (heap self ! 0), self\<lparr>heap := hp', heap_size := heap_size self - 1\<rparr>)"
    "int (length hp') = heap_size self - 1"
    "mset hp' = mset (heap self) - {#heap self ! 0#}"
    "heap_from (children self) 0 (heap_size self) (heap self)
       \<longrightarrow> heap_from (children self) 0 (heap_size self - 1) hp'" by blast
  have mx: "heap self ! 0 = Max (set (heap self))"
    if "max_heap_property (children self) (heap_size self) (heap self)"
  proof -
    have "heap self \<noteq> []"
    proof
      assume "heap self = []"
      then show False using n1 assms(2) by simp
    qed
    moreover have "heap_from (children self) 0 (int (length (heap self))) (heap self)"
      using that d assms(2) by (simp add: max_heap_property_iff)
    ultimately show ?thesis using heap_root_Max[OF d] by blast
  qed
  show ?thesis using h mx False d by (auto simp: max_heap_property_iff Suc_le_eq)
qed

theorem extract_max_correct_witness:
  "2 \<le> children \<lparr>heap = [9, 7, 4, 3, 2, 1 :: int], heap_size = 6, children = 2\<rparr>
   \<and> heap_size \<lparr>heap = [9, 7, 4, 3, 2, 1 :: int], heap_size = 6, children = 2\<rparr> = int (length (heap \<lparr>heap = [9, 7, 4, 3, 2, 1 :: int], heap_size = 6, children = 2\<rparr>))
   \<and> 1 \<le> heap_size \<lparr>heap = [9, 7, 4, 3, 2, 1 :: int], heap_size = 6, children = 2\<rparr>
   \<and> max_heap_property (children \<lparr>heap = [9, 7, 4, 3, 2, 1 :: int], heap_size = 6, children = 2\<rparr>) (heap_size \<lparr>heap = [9, 7, 4, 3, 2, 1 :: int], heap_size = 6, children = 2\<rparr>) (heap \<lparr>heap = [9, 7, 4, 3, 2, 1 :: int], heap_size = 6, children = 2\<rparr>)
   \<and> fst (extract_max \<lparr>heap = [9, 7, 4, 3, 2, 1 :: int], heap_size = 6, children = 2\<rparr>) = Inr (Max (set (heap \<lparr>heap = [9, 7, 4, 3, 2, 1 :: int], heap_size = 6, children = 2\<rparr>)))
   \<and> mset (heap (snd (extract_max \<lparr>heap = [9, 7, 4, 3, 2, 1 :: int], heap_size = 6, children = 2\<rparr>))) = mset (heap \<lparr>heap = [9, 7, 4, 3, 2, 1 :: int], heap_size = 6, children = 2\<rparr>) - {#Max (set (heap \<lparr>heap = [9, 7, 4, 3, 2, 1 :: int], heap_size = 6, children = 2\<rparr>))#}
   \<and> max_heap_property (children \<lparr>heap = [9, 7, 4, 3, 2, 1 :: int], heap_size = 6, children = 2\<rparr>) (heap_size (snd (extract_max \<lparr>heap = [9, 7, 4, 3, 2, 1 :: int], heap_size = 6, children = 2\<rparr>)))
        (heap (snd (extract_max \<lparr>heap = [9, 7, 4, 3, 2, 1 :: int], heap_size = 6, children = 2\<rparr>)))"
proof -
  have a: "2 \<le> children \<lparr>heap = [9, 7, 4, 3, 2, 1 :: int], heap_size = 6, children = 2\<rparr>" by simp
  have b: "heap_size \<lparr>heap = [9, 7, 4, 3, 2, 1 :: int], heap_size = 6, children = 2\<rparr> = int (length (heap \<lparr>heap = [9, 7, 4, 3, 2, 1 :: int], heap_size = 6, children = 2\<rparr>))" by simp
  have c: "1 \<le> heap_size \<lparr>heap = [9, 7, 4, 3, 2, 1 :: int], heap_size = 6, children = 2\<rparr>" by simp
  have p: "max_heap_property (children \<lparr>heap = [9, 7, 4, 3, 2, 1 :: int], heap_size = 6, children = 2\<rparr>) (heap_size \<lparr>heap = [9, 7, 4, 3, 2, 1 :: int], heap_size = 6, children = 2\<rparr>) (heap \<lparr>heap = [9, 7, 4, 3, 2, 1 :: int], heap_size = 6, children = 2\<rparr>)" by code_simp
  show ?thesis using extract_max_correct[OF a b] a b c p by blast
qed

section \<open>Increasing a key and inserting\<close>

text \<open>
  Claim C5: for an index in \<open>[0, size)\<close> of a heap whose list holds at least \<open>size\<close>
  keys, \<^verbatim>\<open>increase_key\<close> raises \<^verbatim>\<open>IllegalKeyError\<close> exactly when the new key is not
  strictly greater than the key stored at the index; whenever it fails the heap is
  what it was before the call. Otherwise it returns, the stored keys are the old ones
  with one occurrence of the old key replaced by the new key, size and branching
  factor are unchanged, and a heap with the max-heap property has it again.
\<close>

theorem increase_key_correct:
  assumes "2 \<le> children self" "0 \<le> index" "index < heap_size self"
    "heap_size self \<le> int (length (heap self))"
  shows "(fst (increase_key self index key) = Inl IllegalKeyError
            \<longleftrightarrow> \<not> heap self ! nat index < key)
    \<and> (fst (increase_key self index key) \<noteq> Inr () \<longrightarrow> snd (increase_key self index key) = self)
    \<and> (heap self ! nat index < key \<longrightarrow>
         fst (increase_key self index key) = Inr ()
       \<and> heap_size (snd (increase_key self index key)) = heap_size self
       \<and> children (snd (increase_key self index key)) = children self
       \<and> length (heap (snd (increase_key self index key))) = length (heap self)
       \<and> mset (heap (snd (increase_key self index key)))
           = mset (heap self) - {#heap self ! nat index#} + {#key#}
       \<and> (max_heap_property (children self) (heap_size self) (heap self) \<longrightarrow>
            max_heap_property (children self) (heap_size self)
              (heap (snd (increase_key self index key)))))"
proof -
  define hp where "hp = heap self"
  have il: "index < int (length hp)" using assms(3,4) by (simp add: hp_def)
  have g: "py_get hp index = Some (hp ! nat index)" using assms(2) il by (rule py_get_nonneg)
  show ?thesis
  proof (cases "hp ! nat index < key")
    case False
    then have "key \<le> hp ! nat index" by simp
    then have "increase_key self index key = (Inl IllegalKeyError, self)"
      using g by (simp add: increase_key_def hp_def)
    then show ?thesis using False by (simp add: hp_def)
  next
    case True
    define hp1 where "hp1 = hp[nat index := key]"
    define self1 where "self1 = self\<lparr>heap := hp1\<rparr>"
    have d: "0 < children self" using assms(1) by simp
    have st: "py_set hp index key = Some hp1" unfolding hp1_def using assms(2) il by (rule py_set_nonneg)
    have s1: "children self1 = children self" "index < int (length (heap self1))"
      using il by (simp_all add: self1_def hp1_def)
    from sift_up_total[OF s1(1) d assms(2) s1(2), of key "heap_size self"]
    obtain hp' where r: "sift_up self1 index key = (Inr (), self1\<lparr>heap := hp'\<rparr>)"
      "length hp' = length hp1" "mset hp' = mset hp1"
      "heap_size self \<le> int (length hp1) \<and> index < heap_size self \<and> hp1 ! nat index = key
         \<and> up_except (children self) (heap_size self) index hp1
       \<longrightarrow> heap_from (children self) 0 (heap_size self) hp'"
      by (auto simp: self1_def)
    have eq: "increase_key self index key = (Inr (), self1\<lparr>heap := hp'\<rparr>)"
      using g st True r(1) by (simp add: increase_key_def hp_def[symmetric] self1_def)
    have ms: "mset hp1 = mset hp - {#hp ! nat index#} + {#key#}"
      using il assms(2) by (simp add: hp1_def mset_update)
    have inv: "heap_from (children self) 0 (heap_size self) hp'"
      if "heap_from (children self) 0 (heap_size self) hp"
    proof -
      have "up_except (children self) (heap_size self) index hp1"
        unfolding hp1_def using True assms hp_def
        by (intro heap_from_update_up_except[OF d that]) auto
      moreover have "hp1 ! nat index = key" using il assms(2) by (simp add: hp1_def)
      ultimately show ?thesis using r(4) assms(3,4) by (simp add: hp1_def hp_def)
    qed
    show ?thesis
      using eq True r(2,3) ms inv d
      by (simp add: hp_def[symmetric] self1_def hp1_def max_heap_property_iff)
  qed
qed

theorem increase_key_correct_witness:
  "2 \<le> children \<lparr>heap = [5, 4, 3, 2, 1 :: int], heap_size = 5, children = 3\<rparr> \<and> (0::int) \<le> 4 \<and> 4 < heap_size \<lparr>heap = [5, 4, 3, 2, 1 :: int], heap_size = 5, children = 3\<rparr>
   \<and> heap_size \<lparr>heap = [5, 4, 3, 2, 1 :: int], heap_size = 5, children = 3\<rparr> \<le> int (length (heap \<lparr>heap = [5, 4, 3, 2, 1 :: int], heap_size = 5, children = 3\<rparr>))
   \<and> heap \<lparr>heap = [5, 4, 3, 2, 1 :: int], heap_size = 5, children = 3\<rparr> ! nat 4 < 10
   \<and> max_heap_property (children \<lparr>heap = [5, 4, 3, 2, 1 :: int], heap_size = 5, children = 3\<rparr>) (heap_size \<lparr>heap = [5, 4, 3, 2, 1 :: int], heap_size = 5, children = 3\<rparr>) (heap \<lparr>heap = [5, 4, 3, 2, 1 :: int], heap_size = 5, children = 3\<rparr>)
   \<and> fst (increase_key \<lparr>heap = [5, 4, 3, 2, 1 :: int], heap_size = 5, children = 3\<rparr> 4 10) = Inr ()
   \<and> mset (heap (snd (increase_key \<lparr>heap = [5, 4, 3, 2, 1 :: int], heap_size = 5, children = 3\<rparr> 4 10))) = mset (heap \<lparr>heap = [5, 4, 3, 2, 1 :: int], heap_size = 5, children = 3\<rparr>) - {#heap \<lparr>heap = [5, 4, 3, 2, 1 :: int], heap_size = 5, children = 3\<rparr> ! nat 4#} + {#10#}
   \<and> max_heap_property (children \<lparr>heap = [5, 4, 3, 2, 1 :: int], heap_size = 5, children = 3\<rparr>) (heap_size \<lparr>heap = [5, 4, 3, 2, 1 :: int], heap_size = 5, children = 3\<rparr>) (heap (snd (increase_key \<lparr>heap = [5, 4, 3, 2, 1 :: int], heap_size = 5, children = 3\<rparr> 4 10)))"
proof -
  have a: "2 \<le> children \<lparr>heap = [5, 4, 3, 2, 1 :: int], heap_size = 5, children = 3\<rparr>" by simp
  have b: "(0::int) \<le> 4" by simp
  have c: "4 < heap_size \<lparr>heap = [5, 4, 3, 2, 1 :: int], heap_size = 5, children = 3\<rparr>" by simp
  have e: "heap_size \<lparr>heap = [5, 4, 3, 2, 1 :: int], heap_size = 5, children = 3\<rparr> \<le> int (length (heap \<lparr>heap = [5, 4, 3, 2, 1 :: int], heap_size = 5, children = 3\<rparr>))" by simp
  have k: "heap \<lparr>heap = [5, 4, 3, 2, 1 :: int], heap_size = 5, children = 3\<rparr> ! nat 4 < 10" by simp
  have p: "max_heap_property (children \<lparr>heap = [5, 4, 3, 2, 1 :: int], heap_size = 5, children = 3\<rparr>) (heap_size \<lparr>heap = [5, 4, 3, 2, 1 :: int], heap_size = 5, children = 3\<rparr>) (heap \<lparr>heap = [5, 4, 3, 2, 1 :: int], heap_size = 5, children = 3\<rparr>)" by code_simp
  show ?thesis using increase_key_correct[OF a b c e, of 10] a b c e k p by blast
qed

text \<open>
  Claim C7: on a heap whose size is the length of its list, \<^verbatim>\<open>max_heap_insert\<close> never
  raises; it appends the key at the end of the list, adds one to the size, and sifts up
  from the new last position, so that the stored keys are the old ones plus the key and
  a heap with the max-heap property has it again.
\<close>

theorem max_heap_insert_correct:
  assumes "2 \<le> children self" "heap_size self = int (length (heap self))"
  shows "max_heap_insert self key
      = sift_up (self\<lparr>heap_size := heap_size self + 1, heap := heap self @ [key]\<rparr>)
          (int (length (heap self))) key
    \<and> fst (max_heap_insert self key) = Inr ()
    \<and> heap_size (snd (max_heap_insert self key)) = heap_size self + 1
    \<and> heap_size (snd (max_heap_insert self key))
        = int (length (heap (snd (max_heap_insert self key))))
    \<and> children (snd (max_heap_insert self key)) = children self
    \<and> mset (heap (snd (max_heap_insert self key))) = mset (heap self) + {#key#}
    \<and> (max_heap_property (children self) (heap_size self) (heap self) \<longrightarrow>
         max_heap_property (children self) (heap_size self + 1)
           (heap (snd (max_heap_insert self key))))"
proof -
  define hp where "hp = heap self"
  define n where "n = heap_size self"
  define self1 where "self1 = self\<lparr>heap_size := n + 1, heap := hp @ [key]\<rparr>"
  have nl: "n = int (length hp)" using assms(2) by (simp add: n_def hp_def)
  have d: "0 < children self" using assms(1) by simp
  have eq: "max_heap_insert self key = sift_up self1 n key"
    by (simp add: max_heap_insert_def self1_def n_def hp_def)
  have s1: "children self1 = children self" "0 \<le> n" "n < int (length (heap self1))"
    using nl by (simp_all add: self1_def)
  from sift_up_total[OF s1(1) d s1(2,3), of key "n + 1"]
  obtain hp' where r: "sift_up self1 n key = (Inr (), self1\<lparr>heap := hp'\<rparr>)"
    "length hp' = length (hp @ [key])" "mset hp' = mset (hp @ [key])"
    "n + 1 \<le> int (length (hp @ [key])) \<and> n < n + 1 \<and> (hp @ [key]) ! nat n = key
       \<and> up_except (children self) (n + 1) n (hp @ [key])
     \<longrightarrow> heap_from (children self) 0 (n + 1) hp'"
    by (auto simp: self1_def)
  have inv: "heap_from (children self) 0 (n + 1) hp'" if "heap_from (children self) 0 n hp"
  proof -
    have "up_except (children self) (n + 1) n (hp @ [key])"
      using heap_from_append_up_except[OF d that nl] .
    moreover have "(hp @ [key]) ! nat n = key" using nl by simp
    ultimately show ?thesis using r(4) nl by simp
  qed
  show ?thesis
    using eq r(1,2,3) inv d nl
    by (simp add: self1_def n_def[symmetric] hp_def[symmetric] max_heap_property_iff)
qed

theorem max_heap_insert_correct_witness:
  "2 \<le> children \<lparr>heap = [9, 4, 7, 3, 1 :: int], heap_size = 5, children = 2\<rparr> \<and> heap_size \<lparr>heap = [9, 4, 7, 3, 1 :: int], heap_size = 5, children = 2\<rparr> = int (length (heap \<lparr>heap = [9, 4, 7, 3, 1 :: int], heap_size = 5, children = 2\<rparr>))
   \<and> max_heap_property (children \<lparr>heap = [9, 4, 7, 3, 1 :: int], heap_size = 5, children = 2\<rparr>) (heap_size \<lparr>heap = [9, 4, 7, 3, 1 :: int], heap_size = 5, children = 2\<rparr>) (heap \<lparr>heap = [9, 4, 7, 3, 1 :: int], heap_size = 5, children = 2\<rparr>)
   \<and> fst (max_heap_insert \<lparr>heap = [9, 4, 7, 3, 1 :: int], heap_size = 5, children = 2\<rparr> 8) = Inr ()
   \<and> mset (heap (snd (max_heap_insert \<lparr>heap = [9, 4, 7, 3, 1 :: int], heap_size = 5, children = 2\<rparr> 8))) = mset (heap \<lparr>heap = [9, 4, 7, 3, 1 :: int], heap_size = 5, children = 2\<rparr>) + {#8#}
   \<and> max_heap_property (children \<lparr>heap = [9, 4, 7, 3, 1 :: int], heap_size = 5, children = 2\<rparr>) (heap_size \<lparr>heap = [9, 4, 7, 3, 1 :: int], heap_size = 5, children = 2\<rparr> + 1) (heap (snd (max_heap_insert \<lparr>heap = [9, 4, 7, 3, 1 :: int], heap_size = 5, children = 2\<rparr> 8)))"
proof -
  have a: "2 \<le> children \<lparr>heap = [9, 4, 7, 3, 1 :: int], heap_size = 5, children = 2\<rparr>" by simp
  have b: "heap_size \<lparr>heap = [9, 4, 7, 3, 1 :: int], heap_size = 5, children = 2\<rparr> = int (length (heap \<lparr>heap = [9, 4, 7, 3, 1 :: int], heap_size = 5, children = 2\<rparr>))" by simp
  have p: "max_heap_property (children \<lparr>heap = [9, 4, 7, 3, 1 :: int], heap_size = 5, children = 2\<rparr>) (heap_size \<lparr>heap = [9, 4, 7, 3, 1 :: int], heap_size = 5, children = 2\<rparr>) (heap \<lparr>heap = [9, 4, 7, 3, 1 :: int], heap_size = 5, children = 2\<rparr>)" by code_simp
  show ?thesis using max_heap_insert_correct[OF a b, of 8] a b p by blast
qed

section \<open>Deletion\<close>

text \<open>
  Claim C6, as the code has it: \<^verbatim>\<open>delete_key\<close> raises \<^verbatim>\<open>IndexError\<close> exactly when the
  position is outside \<open>[0, size)\<close> or the size exceeds the length of the list (the guard
  passes and the read of the last tracked position raises); whenever it raises, the
  heap is what it was before the call. On a heap whose size is the length of its list
  it therefore raises exactly for a position outside \<open>[0, size)\<close>; for a position inside
  it returns, the size drops by one and stays the length of the list, the stored keys
  are the old ones without one occurrence of the key that was at the position, and a
  heap with the max-heap property has it again; the last position is one of these
  positions.
\<close>

theorem delete_key_correct:
  assumes "2 \<le> children self"
  shows "(fst (delete_key self key) = Inl IndexError
            \<longleftrightarrow> \<not> (0 \<le> key \<and> key < heap_size self)
                \<or> int (length (heap self)) < heap_size self)
    \<and> (fst (delete_key self key) \<noteq> Inr () \<longrightarrow> delete_key self key = (Inl IndexError, self))
    \<and> (heap_size self = int (length (heap self)) \<longrightarrow>
         (fst (delete_key self key) = Inl IndexError
            \<longleftrightarrow> \<not> (0 \<le> key \<and> key < heap_size self))
       \<and> (\<not> (0 \<le> key \<and> key < heap_size self) \<longrightarrow> snd (delete_key self key) = self)
       \<and> (0 \<le> key \<and> key < heap_size self \<longrightarrow>
            fst (delete_key self key) = Inr ()
          \<and> heap_size (snd (delete_key self key)) = heap_size self - 1
          \<and> heap_size (snd (delete_key self key))
              = int (length (heap (snd (delete_key self key))))
          \<and> children (snd (delete_key self key)) = children self
          \<and> mset (heap (snd (delete_key self key)))
              = mset (heap self) - {#heap self ! nat key#}
          \<and> (max_heap_property (children self) (heap_size self) (heap self) \<longrightarrow>
               max_heap_property (children self) (heap_size self - 1)
                 (heap (snd (delete_key self key))))))"
proof -
  have d: "0 < children self" using assms by simp
  have fails: "delete_key self key = (Inl IndexError, self)"
    if "\<not> (0 \<le> key \<and> key < heap_size self) \<or> int (length (heap self)) < heap_size self"
    using that delete_key_outside[of key self] delete_key_short[of self key] by blast
  have returns: "fst (delete_key self key) = Inr ()"
    if "\<not> (\<not> (0 \<le> key \<and> key < heap_size self) \<or> int (length (heap self)) < heap_size self)"
    using that delete_key_returns[OF refl d refl, of key] by simp
  have a: "fst (delete_key self key) = Inl IndexError
            \<longleftrightarrow> \<not> (0 \<le> key \<and> key < heap_size self)
                \<or> int (length (heap self)) < heap_size self"
    using fails returns by (metis Inl_Inr_False fst_conv)
  have b: "fst (delete_key self key) \<noteq> Inr () \<longrightarrow> delete_key self key = (Inl IndexError, self)"
    using fails returns by blast
  have c: "fst (delete_key self key) = Inr ()
          \<and> heap_size (snd (delete_key self key)) = heap_size self - 1
          \<and> heap_size (snd (delete_key self key))
              = int (length (heap (snd (delete_key self key))))
          \<and> children (snd (delete_key self key)) = children self
          \<and> mset (heap (snd (delete_key self key)))
              = mset (heap self) - {#heap self ! nat key#}
          \<and> (max_heap_property (children self) (heap_size self) (heap self) \<longrightarrow>
               max_heap_property (children self) (heap_size self - 1)
                 (heap (snd (delete_key self key))))"
    if e: "heap_size self = int (length (heap self))" and k: "0 \<le> key" "key < heap_size self"
  proof -
    from delete_key_spec[OF refl d refl e k]
    obtain hp' where h: "delete_key self key
        = (Inr (), self\<lparr>heap := hp', heap_size := heap_size self - 1\<rparr>)"
      "int (length hp') = heap_size self - 1"
      "mset hp' = mset (heap self) - {#heap self ! nat key#}"
      "heap_from (children self) 0 (heap_size self) (heap self)
         \<longrightarrow> heap_from (children self) 0 (heap_size self - 1) hp'" by blast
    show ?thesis using h d by (simp add: max_heap_property_iff)
  qed
  have f: "snd (delete_key self key) = self" if "\<not> (0 \<le> key \<and> key < heap_size self)"
    using fails that by simp
  have g: "fst (delete_key self key) = Inl IndexError \<longleftrightarrow> \<not> (0 \<le> key \<and> key < heap_size self)"
    if "heap_size self = int (length (heap self))"
    using a that by simp
  show ?thesis using a b c f g by blast
qed

theorem delete_key_correct_witness:
  "2 \<le> children \<lparr>heap = [10, 3, 9, 1, 2, 8, 7 :: int], heap_size = 7, children = 2\<rparr> \<and> heap_size \<lparr>heap = [10, 3, 9, 1, 2, 8, 7 :: int], heap_size = 7, children = 2\<rparr> = int (length (heap \<lparr>heap = [10, 3, 9, 1, 2, 8, 7 :: int], heap_size = 7, children = 2\<rparr>))
   \<and> (0::int) \<le> 3 \<and> 3 < heap_size \<lparr>heap = [10, 3, 9, 1, 2, 8, 7 :: int], heap_size = 7, children = 2\<rparr>
   \<and> max_heap_property (children \<lparr>heap = [10, 3, 9, 1, 2, 8, 7 :: int], heap_size = 7, children = 2\<rparr>) (heap_size \<lparr>heap = [10, 3, 9, 1, 2, 8, 7 :: int], heap_size = 7, children = 2\<rparr>) (heap \<lparr>heap = [10, 3, 9, 1, 2, 8, 7 :: int], heap_size = 7, children = 2\<rparr>)
   \<and> fst (delete_key \<lparr>heap = [10, 3, 9, 1, 2, 8, 7 :: int], heap_size = 7, children = 2\<rparr> 3) = Inr ()
   \<and> mset (heap (snd (delete_key \<lparr>heap = [10, 3, 9, 1, 2, 8, 7 :: int], heap_size = 7, children = 2\<rparr> 3))) = mset (heap \<lparr>heap = [10, 3, 9, 1, 2, 8, 7 :: int], heap_size = 7, children = 2\<rparr>) - {#heap \<lparr>heap = [10, 3, 9, 1, 2, 8, 7 :: int], heap_size = 7, children = 2\<rparr> ! nat 3#}
   \<and> max_heap_property (children \<lparr>heap = [10, 3, 9, 1, 2, 8, 7 :: int], heap_size = 7, children = 2\<rparr>) (heap_size \<lparr>heap = [10, 3, 9, 1, 2, 8, 7 :: int], heap_size = 7, children = 2\<rparr> - 1) (heap (snd (delete_key \<lparr>heap = [10, 3, 9, 1, 2, 8, 7 :: int], heap_size = 7, children = 2\<rparr> 3)))
   \<and> (0::int) \<le> 6 \<and> 6 < heap_size \<lparr>heap = [10, 3, 9, 1, 2, 8, 7 :: int], heap_size = 7, children = 2\<rparr>
   \<and> fst (delete_key \<lparr>heap = [10, 3, 9, 1, 2, 8, 7 :: int], heap_size = 7, children = 2\<rparr> 6) = Inr ()
   \<and> max_heap_property (children \<lparr>heap = [10, 3, 9, 1, 2, 8, 7 :: int], heap_size = 7, children = 2\<rparr>) (heap_size \<lparr>heap = [10, 3, 9, 1, 2, 8, 7 :: int], heap_size = 7, children = 2\<rparr> - 1) (heap (snd (delete_key \<lparr>heap = [10, 3, 9, 1, 2, 8, 7 :: int], heap_size = 7, children = 2\<rparr> 6)))
   \<and> \<not> (0 \<le> (7::int) \<and> 7 < heap_size \<lparr>heap = [10, 3, 9, 1, 2, 8, 7 :: int], heap_size = 7, children = 2\<rparr>)
   \<and> delete_key \<lparr>heap = [10, 3, 9, 1, 2, 8, 7 :: int], heap_size = 7, children = 2\<rparr> 7 = (Inl IndexError, \<lparr>heap = [10, 3, 9, 1, 2, 8, 7 :: int], heap_size = 7, children = 2\<rparr>)
   \<and> 2 \<le> children \<lparr>heap = [] :: int list, heap_size = 3, children = 2\<rparr> \<and> int (length (heap \<lparr>heap = [] :: int list, heap_size = 3, children = 2\<rparr>)) < heap_size \<lparr>heap = [] :: int list, heap_size = 3, children = 2\<rparr>
   \<and> delete_key \<lparr>heap = [] :: int list, heap_size = 3, children = 2\<rparr> 0 = (Inl IndexError, \<lparr>heap = [] :: int list, heap_size = 3, children = 2\<rparr>)"
proof -
  have a: "2 \<le> children \<lparr>heap = [10, 3, 9, 1, 2, 8, 7 :: int], heap_size = 7, children = 2\<rparr>" "2 \<le> children \<lparr>heap = [] :: int list, heap_size = 3, children = 2\<rparr>" by simp_all
  have b: "heap_size \<lparr>heap = [10, 3, 9, 1, 2, 8, 7 :: int], heap_size = 7, children = 2\<rparr> = int (length (heap \<lparr>heap = [10, 3, 9, 1, 2, 8, 7 :: int], heap_size = 7, children = 2\<rparr>))" by simp
  have k: "(0::int) \<le> 3 \<and> 3 < heap_size \<lparr>heap = [10, 3, 9, 1, 2, 8, 7 :: int], heap_size = 7, children = 2\<rparr>" "(0::int) \<le> 6 \<and> 6 < heap_size \<lparr>heap = [10, 3, 9, 1, 2, 8, 7 :: int], heap_size = 7, children = 2\<rparr>"
    "\<not> (0 \<le> (7::int) \<and> 7 < heap_size \<lparr>heap = [10, 3, 9, 1, 2, 8, 7 :: int], heap_size = 7, children = 2\<rparr>)" by simp_all
  have e: "int (length (heap \<lparr>heap = [] :: int list, heap_size = 3, children = 2\<rparr>)) < heap_size \<lparr>heap = [] :: int list, heap_size = 3, children = 2\<rparr>" by simp
  have p: "max_heap_property (children \<lparr>heap = [10, 3, 9, 1, 2, 8, 7 :: int], heap_size = 7, children = 2\<rparr>) (heap_size \<lparr>heap = [10, 3, 9, 1, 2, 8, 7 :: int], heap_size = 7, children = 2\<rparr>) (heap \<lparr>heap = [10, 3, 9, 1, 2, 8, 7 :: int], heap_size = 7, children = 2\<rparr>)" by code_simp
  have n7: "fst (delete_key \<lparr>heap = [10, 3, 9, 1, 2, 8, 7 :: int], heap_size = 7, children = 2\<rparr> 7) \<noteq> Inr ()"
    using delete_key_correct[OF a(1), of 7] k(3) by auto
  have n0: "fst (delete_key \<lparr>heap = [] :: int list, heap_size = 3, children = 2\<rparr> 0) \<noteq> Inr ()"
    using delete_key_correct[OF a(2), of 0] e by auto
  show ?thesis
    using delete_key_correct[OF a(1), of 3] delete_key_correct[OF a(1), of 6]
      delete_key_correct[OF a(1), of 7] delete_key_correct[OF a(2), of 0]
      a b k e p n7 n0 by blast
qed

text \<open>
  Claim C6 as stated fails without the size being the length of the list: on the heap
  that \<^verbatim>\<open>DAryHeap(3, 2)\<close> constructs, position 0 lies inside \<open>[0, size)\<close> and
  \<^verbatim>\<open>delete_key(0)\<close> raises \<^verbatim>\<open>IndexError\<close>.
\<close>

theorem delete_key_counterexample:
  "(init 3 2 :: error + int d_ary_heap) = Inr \<lparr>heap = [] :: int list, heap_size = 3, children = 2\<rparr>
   \<and> (0::int) \<le> 0 \<and> 0 < heap_size \<lparr>heap = [] :: int list, heap_size = 3, children = 2\<rparr>
   \<and> fst (delete_key \<lparr>heap = [] :: int list, heap_size = 3, children = 2\<rparr> 0) = Inl IndexError
   \<and> \<not> (fst (delete_key \<lparr>heap = [] :: int list, heap_size = 3, children = 2\<rparr> 0) = Inl IndexError \<longleftrightarrow> \<not> (0 \<le> (0::int) \<and> 0 < heap_size \<lparr>heap = [] :: int list, heap_size = 3, children = 2\<rparr>))"
  by (simp add: init_def delete_key_def py_get_def py_index_def)

section \<open>Heap sort\<close>

text \<open>
  Claim C8: for every heap with branching factor \<open>d \<ge> 2\<close> and every list,
  \<^verbatim>\<open>heap_sort\<close> returns without raising and leaves the list in non-decreasing order, a
  rearrangement of the input (so it is the sorted input), with the tracked size put
  back to the length of the list. Hence an already sorted list is left as it is, and
  sorting the result once more with the same heap gives the same list.
\<close>

theorem heap_sort_correct:
  assumes "2 \<le> children self"
  shows "fst (heap_sort self array) = Inr ()
    \<and> sorted (heap (snd (heap_sort self array)))
    \<and> mset (heap (snd (heap_sort self array))) = mset array
    \<and> heap (snd (heap_sort self array)) = sort array
    \<and> heap_size (snd (heap_sort self array)) = int (length array)
    \<and> children (snd (heap_sort self array)) = children self
    \<and> (sorted array \<longrightarrow> heap (snd (heap_sort self array)) = array)
    \<and> heap (snd (heap_sort (snd (heap_sort self array)) (heap (snd (heap_sort self array)))))
        = heap (snd (heap_sort self array))"
proof -
  from heap_sort_spec[OF assms, of array]
  obtain s1 where a: "heap_sort self array = (Inr (), s1)" "sorted (heap s1)"
    "mset (heap s1) = mset array" "heap_size s1 = int (length array)"
    "children s1 = children self" by blast
  have c: "2 \<le> children s1" using a(5) assms by simp
  from heap_sort_spec[OF c, of "heap s1"]
  obtain s2 where b: "heap_sort s1 (heap s1) = (Inr (), s2)" "sorted (heap s2)"
    "mset (heap s2) = mset (heap s1)" by blast
  have e1: "heap s1 = sort array" using a(2,3) by (simp add: properties_for_sort)
  have e2: "heap s2 = sort (heap s1)" using b(2,3) by (simp add: properties_for_sort)
  have e3: "sort (heap s1) = heap s1" using a(2) by (simp add: sorted_sort_id)
  have e4: "sorted array \<longrightarrow> sort array = array" by (simp add: sorted_sort_id)
  show ?thesis using a b e1 e2 e3 e4 by simp
qed

theorem heap_sort_correct_witness:
  "2 \<le> children \<lparr>heap = [7, 7], heap_size = 0, children = 3\<rparr>
   \<and> fst (heap_sort \<lparr>heap = [7, 7], heap_size = 0, children = 3\<rparr> [3, 1, 4, 1, 5, 9, 2, 6 :: int]) = Inr ()
   \<and> heap (snd (heap_sort \<lparr>heap = [7, 7], heap_size = 0, children = 3\<rparr> [3, 1, 4, 1, 5, 9, 2, 6 :: int])) = [1, 1, 2, 3, 4, 5, 6, 9]
   \<and> heap (snd (heap_sort \<lparr>heap = [7, 7], heap_size = 0, children = 3\<rparr> [3, 1, 4, 1, 5, 9, 2, 6 :: int])) = sort [3, 1, 4, 1, 5, 9, 2, 6 :: int]
   \<and> heap_size (snd (heap_sort \<lparr>heap = [7, 7], heap_size = 0, children = 3\<rparr> [3, 1, 4, 1, 5, 9, 2, 6 :: int])) = 8"
proof -
  have a: "2 \<le> children \<lparr>heap = [7, 7], heap_size = 0, children = 3\<rparr>" by simp
  have b: "sort [3, 1, 4, 1, 5, 9, 2, 6 :: int] = [1, 1, 2, 3, 4, 5, 6, 9]" by code_simp
  show ?thesis using heap_sort_correct[OF a, of "[3, 1, 4, 1, 5, 9, 2, 6 :: int]"] a b by simp
qed

end
